theory Spec2Isabelle
  imports Main "HOL-Library.Word" "HOL-Library.Signed_Division"
begin

unbundle bit_operations_syntax

section \<open>Checksummed reader and writer of brimio\<close>

text \<open>
  The theory embeds \<^verbatim>\<open>checksummedWriterImpl\<close> and \<^verbatim>\<open>checksummedReaderImpl\<close>
  with their methods \<^verbatim>\<open>Write\<close>, \<^verbatim>\<open>Close\<close>, \<^verbatim>\<open>Read\<close>, \<^verbatim>\<open>Seek\<close> and
  \<^verbatim>\<open>Verify\<close>, and the stand-in \<^verbatim>\<open>errDelegate\<close>.

  Conventions.
  \<^item> A byte slice is a \<open>byte list\<close>. A method that fills a caller's buffer takes the
    buffer's length and returns the bytes it stored there.
  \<^item> Go's \<^verbatim>\<open>int\<close> values that are slice lengths or in-block offsets are \<open>int\<close>. A
    slice length is bounded by the address space, so adding one to an in-block offset
    does not wrap. The \<^verbatim>\<open>int64\<close> arithmetic of \<^verbatim>\<open>Seek\<close> works on offsets chosen
    freely by the caller; there every operation wraps to 64 bits (\<open>int64\<close> below), and
    division truncates towards zero (\<open>sdiv\<close>, \<open>smod\<close>).
  \<^item> A run-time panic (slice bounds out of range, integer division by zero) is the
    outcome \<open>Panic\<close>.
  \<^item> An error value is \<open>Some e\<close>, Go's \<^verbatim>\<open>nil\<close> error is \<open>None\<close>.
  \<^item> A \<^verbatim>\<open>hash.Hash32\<close> is the list of bytes written to it since it was made;
    \<open>newHash\<close> is the function from those bytes to the 32-bit sum of a fresh instance.
  \<^item> The 4-byte scratch slice \<^verbatim>\<open>checksum\<close> of both structs is written before it is
    read in every method, so it carries nothing from one call to the next and is not
    a field of the model.
\<close>

type_synonym byte = "8 word"

datatype error =
    EOF
  | ErrUnexpectedEOF
  | ErrClosed
  | ErrAlreadyClosed
  | ErrInvalidWhence int
  | ErrNegativePosition
  | ErrSinkFull

datatype 'a outcome = Panic | Done 'a

text \<open>\<^verbatim>\<open>binary.BigEndian.PutUint32\<close>.\<close>

definition PutUint32 :: "32 word \<Rightarrow> byte list" where
  "PutUint32 x = [ucast (drop_bit 24 x), ucast (drop_bit 16 x), ucast (drop_bit 8 x), ucast x]"

subsection \<open>The underlying sink and source\<close>

text \<open>
  The \<^verbatim>\<open>io.Writer\<close> a writer is built on is outside the repository. It is modelled as
  an in-memory sink that appends what it is given. With \<open>room = None\<close> it never fails
  (as \<^verbatim>\<open>bytes.Buffer\<close> or the repository's \<^verbatim>\<open>NullIO\<close>); with \<open>room = Some c\<close> it
  takes \<open>c\<close> more bytes and then reports a short write with an error. \<open>closer\<close> says
  whether the object also implements \<^verbatim>\<open>io.Closer\<close>; its \<^verbatim>\<open>Close\<close> returns nil.
\<close>

record sink =
  written :: "byte list"
  room :: "nat option"
  closer :: bool

definition sink_Write :: "sink \<Rightarrow> byte list \<Rightarrow> int \<times> error option \<times> sink" where
  "sink_Write s v =
     (case room s of
        None \<Rightarrow> (int (length v), None, s\<lparr>written := written s @ v\<rparr>)
      | Some c \<Rightarrow>
          if length v \<le> c
          then (int (length v), None, s\<lparr>written := written s @ v, room := Some (c - length v)\<rparr>)
          else (int c, Some ErrSinkFull, s\<lparr>written := written s @ take c v, room := Some 0\<rparr>))"

definition sink_Close :: "sink \<Rightarrow> error option" where
  [simp]: "sink_Close s = None"

text \<open>
  The \<^verbatim>\<open>io.ReadSeeker\<close> a reader is built on is modelled as an in-memory byte
  sequence with an absolute position (never negative), behaving as Go's \<^verbatim>\<open>bytes.Reader\<close>: \<^verbatim>\<open>Read\<close>
  at or past the end returns \<open>(0, EOF)\<close>, otherwise it copies as many bytes as fit and
  returns nil; \<^verbatim>\<open>Seek\<close> refuses an unknown whence and a negative target, returning 0
  with the error, and accepts any target at or past the end. \<open>srcCloser\<close> says whether
  the object also implements \<^verbatim>\<open>io.Closer\<close>; its \<^verbatim>\<open>Close\<close> returns nil.
\<close>

record source =
  contents :: "byte list"
  position :: nat
  srcCloser :: bool

definition source_Read :: "source \<Rightarrow> nat \<Rightarrow> byte list \<times> error option \<times> source" where
  "source_Read s k =
     (if position s \<ge> length (contents s) then ([], Some EOF, s)
      else let got = take k (drop (position s) (contents s))
           in (got, None, s\<lparr>position := position s + length got\<rparr>))"

definition source_Seek :: "source \<Rightarrow> int \<Rightarrow> int \<Rightarrow> int \<times> error option \<times> source" where
  "source_Seek s offset whence =
     (if whence \<noteq> 0 \<and> whence \<noteq> 1 \<and> whence \<noteq> 2 then (0, Some (ErrInvalidWhence whence), s)
      else let abs = (if whence = 0 then offset
                      else if whence = 1 then int (position s) + offset
                      else int (length (contents s)) + offset)
           in if abs < 0 then (0, Some ErrNegativePosition, s)
              else (abs, None, s\<lparr>position := nat abs\<rparr>))"

definition source_Close :: "source \<Rightarrow> error option" where
  [simp]: "source_Close s = None"

subsection \<open>The structs and errDelegate\<close>

text \<open>
  The field \<open>delegate\<close> says what the struct's delegate refers to: the object it was
  built on (\<open>Underlying\<close>, whose state is the field \<open>under\<close>) or the package-level
  \<^verbatim>\<open>_ERR_DELEGATE\<close>. The object behind \<open>under\<close> lives on when the delegate is
  replaced, as the caller's sink does after \<^verbatim>\<open>Close\<close>. Both structs have the same
  fields; the reader never uses its \<open>hash\<close>.
\<close>

datatype delegate = Underlying | ERR_DELEGATE

record 'u impl =
  delegate :: delegate
  under :: 'u
  checksumInterval :: int
  checksumOffset :: int
  newHash :: "byte list \<Rightarrow> 32 word"
  hash :: "byte list"

type_synonym checksummedWriterImpl = "sink impl"
type_synonym checksummedReaderImpl = "source impl"

definition newChecksummedWriterImpl ::
  "sink \<Rightarrow> int \<Rightarrow> (byte list \<Rightarrow> 32 word) \<Rightarrow> checksummedWriterImpl" where
  "newChecksummedWriterImpl d interval nh =
     \<lparr>delegate = Underlying, under = d, checksumInterval = interval, checksumOffset = 0,
      newHash = nh, hash = []\<rparr>"

definition newChecksummedReaderImpl ::
  "source \<Rightarrow> int \<Rightarrow> (byte list \<Rightarrow> 32 word) \<Rightarrow> checksummedReaderImpl" where
  "newChecksummedReaderImpl d interval nh =
     \<lparr>delegate = Underlying, under = d, checksumInterval = interval, checksumOffset = 0,
      newHash = nh, hash = []\<rparr>"

text \<open>Calls through the delegate: \<^verbatim>\<open>errDelegate\<close> answers \<open>(0, closed)\<close>.\<close>

definition delegate_Write ::
  "checksummedWriterImpl \<Rightarrow> byte list \<Rightarrow> int \<times> error option \<times> checksummedWriterImpl" where
  "delegate_Write w v =
     (case delegate w of
        ERR_DELEGATE \<Rightarrow> (0, Some ErrClosed, w)
      | Underlying \<Rightarrow> (case sink_Write (under w) v of (n, e, s) \<Rightarrow> (n, e, w\<lparr>under := s\<rparr>)))"

definition delegate_Read ::
  "checksummedReaderImpl \<Rightarrow> nat \<Rightarrow> byte list \<times> error option \<times> checksummedReaderImpl" where
  "delegate_Read r k =
     (case delegate r of
        ERR_DELEGATE \<Rightarrow> ([], Some ErrClosed, r)
      | Underlying \<Rightarrow> (case source_Read (under r) k of (bs, e, s) \<Rightarrow> (bs, e, r\<lparr>under := s\<rparr>)))"

definition delegate_Seek ::
  "checksummedReaderImpl \<Rightarrow> int \<Rightarrow> int \<Rightarrow> int \<times> error option \<times> checksummedReaderImpl" where
  "delegate_Seek r offset whence =
     (case delegate r of
        ERR_DELEGATE \<Rightarrow> (0, Some ErrClosed, r)
      | Underlying \<Rightarrow>
          (case source_Seek (under r) offset whence of (n, e, s) \<Rightarrow> (n, e, r\<lparr>under := s\<rparr>)))"

subsection \<open>The writer\<close>

text \<open>
  \<^verbatim>\<open>Write\<close>. \<open>Write_loop\<close> is the \<^verbatim>\<open>for\<close> loop together with the code after it;
  its third argument is the running count \<^verbatim>\<open>n\<close>. The loop need not end, so the
  function is partial: \<open>None\<close> means that \<^verbatim>\<open>Write\<close> does not return.
\<close>

partial_function (option) Write_loop ::
  "checksummedWriterImpl \<Rightarrow> byte list \<Rightarrow> int
    \<Rightarrow> (int \<times> error option \<times> checksummedWriterImpl) outcome option" where
  "Write_loop w v n =
     (if checksumOffset w + int (length v) \<ge> checksumInterval w then
        (if checksumInterval w - checksumOffset w < 0 then Some Panic
         else
           let k = nat (checksumInterval w - checksumOffset w) in
           case delegate_Write w (take k v) of (n2, err, w1) \<Rightarrow>
             if err \<noteq> None then Some (Done (n + n2, err, w1\<lparr>delegate := ERR_DELEGATE\<rparr>))
             else
               let w2 = w1\<lparr>hash := hash w1 @ take k v\<rparr> in
               case delegate_Write w2 (PutUint32 (newHash w2 (hash w2))) of (n3, err2, w3) \<Rightarrow>
                 if err2 \<noteq> None then Some (Done (n + n2, err2, w3\<lparr>delegate := ERR_DELEGATE\<rparr>))
                 else Write_loop (w3\<lparr>hash := [], checksumOffset := 0\<rparr>) (drop k v) (n + n2))
      else if length v > 0 then
        (case delegate_Write w v of (n2, err, w1) \<Rightarrow>
           if err \<noteq> None then Some (Done (n + n2, err, w1\<lparr>delegate := ERR_DELEGATE\<rparr>))
           else Some (Done (n + n2, None,
                  w1\<lparr>hash := hash w1 @ v, checksumOffset := checksumOffset w1 + n2\<rparr>)))
      else Some (Done (n, None, w)))"

definition Write ::
  "checksummedWriterImpl \<Rightarrow> byte list
    \<Rightarrow> (int \<times> error option \<times> checksummedWriterImpl) outcome option" where
  "Write w v = Write_loop w v 0"

text \<open>
  \<^verbatim>\<open>checksummedWriterImpl.Close\<close>. \<open>delegate_Close_w\<close> is the type assertion
  \<^verbatim>\<open>cwi.delegate.(io.Closer)\<close> with the call it guards; \<^verbatim>\<open>errDelegate\<close> is an
  \<^verbatim>\<open>io.Closer\<close>.
\<close>

definition delegate_Close_w :: "checksummedWriterImpl \<Rightarrow> error option" where
  "delegate_Close_w w =
     (case delegate w of
        ERR_DELEGATE \<Rightarrow> Some ErrAlreadyClosed
      | Underlying \<Rightarrow> if closer (under w) then sink_Close (under w) else None)"

definition Close_w :: "checksummedWriterImpl \<Rightarrow> error option \<times> checksummedWriterImpl" where
  "Close_w w =
     (if checksumOffset w > 0 then
        (case delegate_Write w (PutUint32 (newHash w (hash w))) of (n, err, w1) \<Rightarrow>
           if err \<noteq> None then (err, w1\<lparr>delegate := ERR_DELEGATE\<rparr>)
           else (delegate_Close_w w1, w1\<lparr>delegate := ERR_DELEGATE\<rparr>))
      else (delegate_Close_w w, w\<lparr>delegate := ERR_DELEGATE\<rparr>))"


text \<open>
  A caller that hands its content to the writer in pieces: one \<^verbatim>\<open>Write\<close> per
  piece, stopping at the first error.
\<close>

fun Write_all ::
  "checksummedWriterImpl \<Rightarrow> byte list list
    \<Rightarrow> (error option \<times> checksummedWriterImpl) outcome option" where
  "Write_all w [] = Some (Done (None, w))"
| "Write_all w (v # vs) =
     (case Write w v of
        None \<Rightarrow> None
      | Some Panic \<Rightarrow> Some Panic
      | Some (Done (n, err, w1)) \<Rightarrow>
          if err \<noteq> None then Some (Done (err, w1)) else Write_all w1 vs)"

subsection \<open>The reader\<close>

text \<open>Wrapping to \<^verbatim>\<open>int64\<close>.\<close>

definition int64 :: "int \<Rightarrow> int" where
  "int64 x = signed_take_bit 63 x"

text \<open>
  \<^verbatim>\<open>io.ReadFull(r, buf)\<close> is \<^verbatim>\<open>io.ReadAtLeast(r, buf, len(buf))\<close>: it calls
  \<^verbatim>\<open>Read\<close> on the rest of the buffer until the buffer is full or an error comes
  back; a full buffer clears the error, and \<open>EOF\<close> after some bytes becomes
  \<open>ErrUnexpectedEOF\<close>.
\<close>

function ReadFull_loop ::
  "checksummedReaderImpl \<Rightarrow> nat \<Rightarrow> byte list \<Rightarrow> error option
    \<Rightarrow> byte list \<times> error option \<times> checksummedReaderImpl" where
  "ReadFull_loop r len buf err =
     (if length buf < len \<and> err = None then
        (case delegate_Read r (len - length buf) of
           (bs, e, r1) \<Rightarrow> ReadFull_loop r1 len (buf @ bs) e)
      else (buf, err, r))"
  by pat_completeness auto
termination
  apply (relation "measure (\<lambda>(r, len, buf, err).
    2 * (len - length buf) + (if err = None then 1 else 0))")
   apply simp
  apply (auto simp: delegate_Read_def source_Read_def Let_def min_def
      split: delegate.splits if_splits)
  done

declare ReadFull_loop.simps [simp del]

definition ReadFull ::
  "checksummedReaderImpl \<Rightarrow> nat \<Rightarrow> byte list \<times> error option \<times> checksummedReaderImpl" where
  "ReadFull r len =
     (case ReadFull_loop r len [] None of
        (buf, err, r1) \<Rightarrow>
          (buf,
           if length buf \<ge> len then None
           else if length buf > 0 \<and> err = Some EOF then Some ErrUnexpectedEOF
           else err,
           r1))"

text \<open>
  \<^verbatim>\<open>checksummedReaderImpl.Read\<close>. The argument is \<^verbatim>\<open>len(v)\<close>; the result holds
  the bytes stored in \<^verbatim>\<open>v\<close>, the count \<^verbatim>\<open>n\<close>, the error and the new state. The
  caller's data are the first \<^verbatim>\<open>n\<close> of the stored bytes.

  In both inner branches the statement \<^verbatim>\<open>n2, err := io.ReadFull(...)\<close> declares a
  new \<^verbatim>\<open>err\<close> in the inner block. The assignments \<^verbatim>\<open>err = io.EOF\<close> and
  \<^verbatim>\<open>_, err = cri.delegate.Seek(...)\<close> go to that inner variable, while
  \<^verbatim>\<open>return n, err\<close> returns the outer one, which is nil on this path.
\<close>

definition Read ::
  "checksummedReaderImpl \<Rightarrow> nat
    \<Rightarrow> (byte list \<times> int \<times> error option \<times> checksummedReaderImpl) outcome" where
  "Read r lenv =
     (if checksumOffset r + int lenv > checksumInterval r
         \<and> checksumInterval r - checksumOffset r < 0 then Panic
      else
        let lenv' = (if checksumOffset r + int lenv > checksumInterval r
                     then nat (checksumInterval r - checksumOffset r) else lenv) in
        case delegate_Read r lenv' of (bs, err, r1) \<Rightarrow>
          let n = int (length bs);
              r2 = r1\<lparr>checksumOffset := checksumOffset r1 + n\<rparr> in
          if err = Some EOF then Done (bs, (if n - 4 < 0 then 0 else n - 4), err, r2)
          else if err = None then
            (if checksumOffset r2 = checksumInterval r2 then
               (case ReadFull r2 4 of (cs, err2, r3) \<Rightarrow>
                  Done (bs,
                        (if err2 = Some EOF \<or> err2 = Some ErrUnexpectedEOF
                         then n - (4 - int (length cs)) else n),
                        None, r3\<lparr>checksumOffset := 0\<rparr>))
             else
               (case ReadFull r2 4 of (cs, err2, r3) \<Rightarrow>
                  if err2 = Some EOF \<or> err2 = Some ErrUnexpectedEOF
                  then Done (bs, n - (4 - int (length cs)), None, r3)
                  else (case delegate_Seek r3 (- int (length cs)) 1 of
                          (p, err3, r4) \<Rightarrow> Done (bs, n, None, r4))))
          else Done (bs, n, err, r2))"

text \<open>
  \<^verbatim>\<open>checksummedReaderImpl.Seek\<close>. The three expressions it is made of:
  \<^verbatim>\<open>o - (o / int64(cri.checksumInterval) * 4)\<close> (with \<open>p\<close> for \<^verbatim>\<open>o\<close>),
  \<^verbatim>\<open>offset + (offset / int64(cri.checksumInterval) * 4)\<close> and
  \<^verbatim>\<open>int(o % (int64(cri.checksumInterval) + 4))\<close>.
\<close>

definition logicalOf :: "int \<Rightarrow> int \<Rightarrow> int" where
  "logicalOf interval p = int64 (p - int64 (int64 (p sdiv interval) * 4))"

definition physicalOf :: "int \<Rightarrow> int \<Rightarrow> int" where
  "physicalOf interval offset = int64 (offset + int64 (int64 (offset sdiv interval) * 4))"

definition blockOffset :: "int \<Rightarrow> int \<Rightarrow> int" where
  "blockOffset interval p = p smod int64 (interval + 4)"

text \<open>The last three lines of \<^verbatim>\<open>Seek\<close>, reached from whence 0, 1 and 2.\<close>

definition Seek_to ::
  "checksummedReaderImpl \<Rightarrow> int \<Rightarrow> (int \<times> error option \<times> checksummedReaderImpl) outcome" where
  "Seek_to r offset =
     (if checksumInterval r = 0 then Panic
      else case delegate_Seek r (physicalOf (checksumInterval r) offset) 0 of
        (p, err, r1) \<Rightarrow>
          if int64 (checksumInterval r + 4) = 0 then Panic
          else Done (logicalOf (checksumInterval r) p, err,
                     r1\<lparr>checksumOffset := blockOffset (checksumInterval r) p\<rparr>))"

definition Seek ::
  "checksummedReaderImpl \<Rightarrow> int \<Rightarrow> int
    \<Rightarrow> (int \<times> error option \<times> checksummedReaderImpl) outcome" where
  "Seek r offset whence =
     (if whence = 0 then Seek_to r offset
      else if whence = 1 \<or> whence = 2 then
        (case delegate_Seek r 0 whence of
           (p, err, r1) \<Rightarrow>
             if int64 (checksumInterval r + 4) = 0 then Panic
             else
               let r2 = r1\<lparr>checksumOffset := blockOffset (checksumInterval r) p\<rparr> in
               if checksumInterval r = 0 then Panic
               else if err \<noteq> None then Done (logicalOf (checksumInterval r) p, err, r2)
               else Seek_to r2 (int64 (logicalOf (checksumInterval r) p + offset)))
      else
        (case delegate_Seek r 0 1 of
           (p, err, r1) \<Rightarrow> Done (p, Some (ErrInvalidWhence whence), r1)))"

text \<open>
  \<^verbatim>\<open>checksummedReaderImpl.Verify\<close>. \<^verbatim>\<open>hash.Sum\<close> of a \<^verbatim>\<open>hash.Hash32\<close> appends
  the big-endian bytes of \<^verbatim>\<open>Sum32\<close>. The slice expressions
  \<^verbatim>\<open>block[cri.checksumInterval:]\<close> and \<^verbatim>\<open>block[n-4 : n]\<close> panic on a negative
  bound.
\<close>

definition Verify_finish ::
  "checksummedReaderImpl \<Rightarrow> int \<Rightarrow> byte list \<Rightarrow> byte list
    \<Rightarrow> (bool \<times> error option \<times> checksummedReaderImpl) outcome" where
  "Verify_finish r originalOffset checksum block =
     (let verified = (checksum = PutUint32 (newHash r block)) in
      case delegate_Seek r originalOffset 0 of
        (p, err, r1) \<Rightarrow> Done (verified, err, r1))"

definition Verify ::
  "checksummedReaderImpl \<Rightarrow> (bool \<times> error option \<times> checksummedReaderImpl) outcome" where
  "Verify r =
     (case delegate_Seek r 0 1 of
        (originalOffset, err, r1) \<Rightarrow>
          if err \<noteq> None then Done (False, err, r1)
          else
            case (if checksumOffset r1 > 0 then delegate_Seek r1 (- checksumOffset r1) 1
                  else (0, None, r1)) of
              (p, err2, r2) \<Rightarrow>
                if err2 \<noteq> None then Done (False, err2, r2)
                else if checksumInterval r2 < 0 then Panic
                else
                  case ReadFull r2 (nat (checksumInterval r2 + 4)) of
                    (buf, err3, r3) \<Rightarrow>
                      if err3 = Some ErrUnexpectedEOF then
                        (if length buf < 4 then Panic
                         else Verify_finish r3 originalOffset
                                (drop (length buf - 4) buf) (take (length buf - 4) buf))
                      else if err3 \<noteq> None then Done (False, err3, r3)
                      else Verify_finish r3 originalOffset
                             (drop (nat (checksumInterval r3)) buf)
                             (take (nat (checksumInterval r3)) buf))"

text \<open>\<^verbatim>\<open>checksummedReaderImpl.Close\<close>.\<close>

definition Close_r :: "checksummedReaderImpl \<Rightarrow> error option \<times> checksummedReaderImpl" where
  "Close_r r =
     ((case delegate r of
         ERR_DELEGATE \<Rightarrow> Some ErrAlreadyClosed
       | Underlying \<Rightarrow> if srcCloser (under r) then source_Close (under r) else None),
      r\<lparr>delegate := ERR_DELEGATE\<rparr>)"

text \<open>
  A caller that reads to the end of the stream: one \<^verbatim>\<open>Read\<close> per buffer length
  of the list, appending the first \<^verbatim>\<open>n\<close> bytes of each buffer, until \<^verbatim>\<open>Read\<close>
  reports \<open>EOF\<close>. \<open>None\<close> when a \<^verbatim>\<open>Read\<close> panics or fails otherwise, or when the
  list ends before \<open>EOF\<close>.
\<close>

fun ReadAll :: "checksummedReaderImpl \<Rightarrow> nat list \<Rightarrow> byte list option" where
  "ReadAll r [] = None"
| "ReadAll r (k # ks) =
     (case Read r k of
        Panic \<Rightarrow> None
      | Done (bs, n, err, r1) \<Rightarrow>
          if err = None then map_option ((@) (take (nat n) bs)) (ReadAll r1 ks)
          else if err = Some EOF then Some (take (nat n) bs)
          else None)"

subsection \<open>The wire layout\<close>

text \<open>
  The layout of the specification: every block of up to \<open>I\<close> content bytes is followed
  by the big-endian digest of exactly that block.
\<close>

function layout :: "(byte list \<Rightarrow> 32 word) \<Rightarrow> nat \<Rightarrow> byte list \<Rightarrow> byte list" where
  "layout nh I c =
     (if I = 0 \<or> c = [] then []
      else take I c @ PutUint32 (nh (take I c)) @ layout nh I (drop I c))"
  by pat_completeness auto
termination
  by (relation "measure (\<lambda>(nh, I, c). length c)") auto

text \<open>
  What the sink holds while a block is open: the finished blocks with their digests,
  then the bytes of the open block (\<open>pending\<close>), whose digest is still to come.
\<close>

function open_layout :: "(byte list \<Rightarrow> 32 word) \<Rightarrow> nat \<Rightarrow> byte list \<Rightarrow> byte list" where
  "open_layout nh I c =
     (if I = 0 \<or> length c < I then c
      else take I c @ PutUint32 (nh (take I c)) @ open_layout nh I (drop I c))"
  by pat_completeness auto
termination
  by (relation "measure (\<lambda>(nh, I, c). length c)") auto

function pending :: "nat \<Rightarrow> byte list \<Rightarrow> byte list" where
  "pending I c = (if I = 0 \<or> length c < I then c else pending I (drop I c))"
  by pat_completeness auto
termination
  by (relation "measure (\<lambda>(I, c). length c)") auto

declare open_layout.simps [simp del] pending.simps [simp del] layout.simps [simp del]

text \<open>A writer on a sink that never fails, after the content \<open>prev\<close> went through it.\<close>

definition writing :: "nat \<Rightarrow> checksummedWriterImpl \<Rightarrow> byte list \<Rightarrow> bool" where
  "writing I w prev \<longleftrightarrow>
     delegate w = Underlying \<and> room (under w) = None \<and> checksumInterval w = int I \<and>
     hash w = pending I prev \<and> checksumOffset w = int (length (pending I prev)) \<and>
     written (under w) = open_layout (newHash w) I prev"

text \<open>A fresh writer with interval 0 on a sink that never fails.\<close>

definition spinning :: "checksummedWriterImpl \<Rightarrow> bool" where
  "spinning w \<longleftrightarrow> checksumInterval w = 0 \<and> checksumOffset w = 0 \<and> delegate w = Underlying
     \<and> room (under w) = None"

subsection \<open>Sample collaborators\<close>

text \<open>
  Two hash constructions, a sink and a source for concrete runs: the sum of the bytes,
  the number of bytes, an empty buffer that never fails, and a byte sequence read from
  its start.
\<close>

definition sum32 :: "byte list \<Rightarrow> 32 word" where
  "sum32 bs = sum_list (map ucast bs)"

definition len32 :: "byte list \<Rightarrow> 32 word" where
  "len32 bs = of_nat (length bs)"

definition memory_sink :: sink where
  "memory_sink = \<lparr>written = [], room = None, closer = True\<rparr>"

definition memory_source :: "byte list \<Rightarrow> source" where
  "memory_source bs = \<lparr>contents = bs, position = 0, srcCloser = True\<rparr>"

subsection \<open>Views of a reader\<close>

text \<open>
  What the source of a reader still holds from its position on, the reader moved
  forward by \<open>j\<close> bytes, and a reader in the middle of a stream: \<open>reading nh I r c\<close>
  says that \<open>r\<close> has consumed \<open>off\<close> bytes of the current block and that its source
  holds, from its position on, the layout of the content \<open>c\<close> still to be delivered
  (or nothing at all, when every byte of the stream has been consumed).
\<close>

definition rest :: "checksummedReaderImpl \<Rightarrow> byte list" where
  "rest r = drop (position (under r)) (contents (under r))"

definition advance :: "checksummedReaderImpl \<Rightarrow> nat \<Rightarrow> checksummedReaderImpl" where
  "advance r j = r\<lparr>under := (under r)\<lparr>position := position (under r) + j\<rparr>\<rparr>"

text \<open>The reader with its source moved to the absolute position \<open>p\<close>.\<close>

definition at_pos :: "checksummedReaderImpl \<Rightarrow> nat \<Rightarrow> checksummedReaderImpl" where
  "at_pos r p = r\<lparr>under := (under r)\<lparr>position := p\<rparr>\<rparr>"

definition reading ::
  "(byte list \<Rightarrow> 32 word) \<Rightarrow> nat \<Rightarrow> checksummedReaderImpl \<Rightarrow> byte list \<Rightarrow> bool" where
  "reading nh I r c \<longleftrightarrow>
     delegate r = Underlying \<and> checksumInterval r = int I \<and>
     (\<exists>off. checksumOffset r = int off \<and> off < I \<and>
        ((rest r = [] \<and> c = []) \<or>
         (\<exists>pre. length pre = off \<and> rest r = drop off (layout nh I (pre @ c)))))"

subsection \<open>Blocks, cursors and corruption\<close>

text \<open>
  For a logical offset \<open>L\<close> and interval \<open>I\<close>: the physical offset at which the block
  holding \<open>L\<close> starts, and the content bytes of that block. \<open>reader_at I nh bs L\<close> is
  the reader over the bytes \<open>bs\<close> with its cursor at the logical offset \<open>L\<close>, the
  state in which \<^verbatim>\<open>Seek(L, 0)\<close> leaves a fresh reader. \<open>corrupt bs i j\<close> is \<open>bs\<close> with
  bit \<open>j\<close> of the byte at index \<open>i\<close> flipped.
\<close>

definition block_start :: "nat \<Rightarrow> nat \<Rightarrow> nat" where
  "block_start I L = (I + 4) * (L div I)"

definition block_of :: "nat \<Rightarrow> byte list \<Rightarrow> nat \<Rightarrow> byte list" where
  "block_of I c L = take I (drop (L div I * I) c)"

definition reader_at ::
  "nat \<Rightarrow> (byte list \<Rightarrow> 32 word) \<Rightarrow> byte list \<Rightarrow> nat \<Rightarrow> checksummedReaderImpl" where
  "reader_at I nh bs L =
     \<lparr>delegate = Underlying,
      under = \<lparr>contents = bs, position = L + 4 * (L div I), srcCloser = True\<rparr>,
      checksumInterval = int I, checksumOffset = int (L mod I), newHash = nh, hash = []\<rparr>"

definition corrupt :: "byte list \<Rightarrow> nat \<Rightarrow> nat \<Rightarrow> byte list" where
  "corrupt bs i j = bs[i := bs ! i XOR push_bit j 1]"

section \<open>Lemmas on the layout and the writer\<close>

lemma length_PutUint32 [simp]: "length (PutUint32 x) = 4"
  by (simp add: PutUint32_def)

lemma open_layout_Nil [simp]: "open_layout nh I [] = []"
  by (subst open_layout.simps) auto

lemma pending_Nil [simp]: "pending I [] = []"
  by (simp add: pending.simps)

lemma layout_Nil [simp]: "layout nh I [] = []"
  by (simp add: layout.simps)

lemma length_pending: "0 < I \<Longrightarrow> length (pending I c) < I"
proof (induction I c rule: pending.induct)
  case (1 I c)
  then show ?case by (subst pending.simps) auto
qed

lemma append_within_block:
  "0 < I \<Longrightarrow> length (pending I c) + length x < I \<Longrightarrow>
   open_layout nh I (c @ x) = open_layout nh I c @ x \<and> pending I (c @ x) = pending I c @ x"
proof (induction nh I c rule: open_layout.induct)
  case (1 nh I c)
  show ?case
  proof (cases "length c < I")
    case True
    with "1.prems" have "length (c @ x) < I" by (simp add: pending.simps)
    with True show ?thesis
      by (simp add: open_layout.simps pending.simps)
  next
    case False
    with "1.prems" have p: "length (pending I (drop I c)) + length x < I"
      by (simp add: pending.simps [of I c] split: if_splits)
    from False "1.prems" have ih: "open_layout nh I (drop I c @ x) = open_layout nh I (drop I c) @ x
        \<and> pending I (drop I c @ x) = pending I (drop I c) @ x"
      using "1.IH" p by simp
    from False show ?thesis
      using ih "1.prems"(1)
      by (simp add: open_layout.simps [of nh I c] open_layout.simps [of nh I "c @ x"]
          pending.simps [of I c] pending.simps [of I "c @ x"])
  qed
qed

lemma append_fills_block:
  "0 < I \<Longrightarrow> length (pending I c) + length x = I \<Longrightarrow>
   open_layout nh I (c @ x) = open_layout nh I c @ x @ PutUint32 (nh (pending I c @ x))
   \<and> pending I (c @ x) = []"
proof (induction nh I c rule: open_layout.induct)
  case (1 nh I c)
  show ?case
  proof (cases "length c < I")
    case True
    with "1.prems" have "length (c @ x) = I" by (simp add: pending.simps)
    with True "1.prems"(1) show ?thesis
      by (simp add: open_layout.simps [of nh I c] open_layout.simps [of nh I "c @ x"]
          open_layout.simps [of nh I "[]"]
          pending.simps [of I c] pending.simps [of I "c @ x"] pending.simps [of I "[]"])
  next
    case False
    with "1.prems" have p: "length (pending I (drop I c)) + length x = I"
      by (simp add: pending.simps [of I c] split: if_splits)
    from False "1.prems" have ih: "open_layout nh I (drop I c @ x) =
          open_layout nh I (drop I c) @ x @ PutUint32 (nh (pending I (drop I c) @ x))
        \<and> pending I (drop I c @ x) = []"
      using "1.IH" p by simp
    from False show ?thesis
      using ih "1.prems"(1)
      by (simp add: open_layout.simps [of nh I c] open_layout.simps [of nh I "c @ x"]
          pending.simps [of I c] pending.simps [of I "c @ x"])
  qed
qed

lemma layout_open:
  "0 < I \<Longrightarrow> layout nh I c =
     open_layout nh I c @ (if pending I c = [] then [] else PutUint32 (nh (pending I c)))"
proof (induction nh I c rule: layout.induct)
  case (1 nh I c)
  show ?case
  proof (cases "length c < I")
    case True
    then show ?thesis using "1.prems"
      by (cases "c = []")
         (simp_all add: layout.simps [of nh I c] layout.simps [of nh I "[]"]
            open_layout.simps [of nh I c] pending.simps [of I c])
  next
    case False
    then have "c \<noteq> []" using "1.prems" by auto
    with False "1.prems" "1.IH" show ?thesis
      by (simp add: layout.simps [of nh I c] open_layout.simps [of nh I c] pending.simps [of I c])
  qed
qed

lemma length_pending_mod: "0 < I \<Longrightarrow> length (pending I c) = length c mod I"
proof (induction I c rule: pending.induct)
  case (1 I c)
  show ?case
  proof (cases "length c < I")
    case True
    then show ?thesis by (simp add: pending.simps [of I c])
  next
    case False
    with 1 have "length (pending I (drop I c)) = (length c - I) mod I" by simp
    with False show ?thesis
      by (simp add: pending.simps [of I c] le_mod_geq)
  qed
qed

lemma pending_eq_drop: "0 < I \<Longrightarrow> pending I c = drop (length c - length c mod I) c"
proof (induction I c rule: pending.induct)
  case (1 I c)
  show ?case
  proof (cases "length c < I")
    case True
    then show ?thesis by (simp add: pending.simps [of I c])
  next
    case False
    with 1 have "pending I (drop I c) = drop (length c - I - (length c - I) mod I) (drop I c)" by simp
    moreover have "(length c - I) mod I = length c mod I" using False by (simp add: le_mod_geq)
    moreover have "length c mod I \<le> length c - I" using False
      by (metis calculation(2) mod_less_eq_dividend)
    ultimately show ?thesis using False
      by (simp add: pending.simps [of I c])
  qed
qed

lemma length_layout:
  "0 < I \<Longrightarrow> length (layout nh I c) = length c + 4 * ((length c + I - 1) div I)"
proof (induction nh I c rule: layout.induct)
  case (1 nh I c)
  show ?case
  proof (cases "c = []")
    case True
    then show ?thesis using "1.prems" by (simp add: layout.simps [of nh I "[]"])
  next
    case False
    with 1 have ih: "length (layout nh I (drop I c)) = (length c - I) + 4 * ((length c - I + I - 1) div I)"
      by simp
    show ?thesis
    proof (cases "length c \<le> I")
      case True
      from False have "0 < length c" by simp
      with True "1.prems" have "I * 1 \<le> length c + I - 1" "length c + I - 1 < I * Suc 1"
        by arith+
      then have "(length c + I - 1) div I = 1"
        by (rule div_nat_eqI)
      with True False ih "1.prems" show ?thesis
        by (simp add: layout.simps [of nh I c])
    next
      case g: False
      then have "(length c + I - 1) div I = Suc ((length c - I + I - 1) div I)"
        using "1.prems" le_div_geq [of I "length c + I - 1"] by simp
      with g False ih "1.prems" show ?thesis
        by (simp add: layout.simps [of nh I c])
    qed
  qed
qed


lemma delegate_Write_live:
  "delegate w = Underlying \<Longrightarrow> room (under w) = None \<Longrightarrow>
   delegate_Write w v = (int (length v), None, w\<lparr>under := (under w)\<lparr>written := written (under w) @ v\<rparr>\<rparr>)"
  by (simp add: delegate_Write_def sink_Write_def)

lemma Write_loop_live:
  "0 < I \<Longrightarrow> writing I w prev \<Longrightarrow>
   \<exists>w'. Write_loop w v n = Some (Done (n + int (length v), None, w')) \<and> writing I w' (prev @ v)
        \<and> newHash w' = newHash w \<and> closer (under w') = closer (under w)"
proof (induction "length v" arbitrary: w v n prev rule: less_induct)
  case less
  note I = \<open>0 < I\<close>
  from less.prems(2) have w: "delegate w = Underlying" "room (under w) = None"
    "checksumInterval w = int I" "hash w = pending I prev"
    "checksumOffset w = int (length (pending I prev))"
    "written (under w) = open_layout (newHash w) I prev"
    by (simp_all add: writing_def)
  have lt: "length (pending I prev) < I" using I by (rule length_pending)
  show ?case
  proof (cases "checksumOffset w + int (length v) \<ge> checksumInterval w")
    case True
    define k where "k = I - length (pending I prev)"
    have k: "0 < k" "k \<le> length v" "length (pending I prev) + length (take k v) = I"
      "nat (checksumInterval w - checksumOffset w) = k"
      using True lt w(3,5) by (auto simp: k_def)
    define w4 where "w4 = w\<lparr>under := (under w)\<lparr>written :=
        (written (under w) @ take k v) @ PutUint32 (newHash w (hash w @ take k v))\<rparr>,
        hash := [], checksumOffset := 0\<rparr>"
    have fill: "open_layout (newHash w) I (prev @ take k v) =
        open_layout (newHash w) I prev @ take k v @ PutUint32 (newHash w (pending I prev @ take k v))"
      "pending I (prev @ take k v) = []"
      using append_fills_block [OF I k(3), of "newHash w"] by simp_all
    have w4: "writing I w4 (prev @ take k v)"
      using w fill by (simp add: writing_def w4_def)
    have step: "Write_loop w v n = Write_loop w4 (drop k v) (n + int k)"
      using True w(3,5) lt k(1,2,4)
      by (subst Write_loop.simps)
         (simp add: delegate_Write_live w(1,2) w4_def Let_def min_absorb2)
    have "length (drop k v) < length v" using k by simp
    from less.hyps [OF this I w4, of "n + int k"]
    obtain w' where "Write_loop w4 (drop k v) (n + int k)
        = Some (Done (n + int k + int (length (drop k v)), None, w'))"
      "writing I w' ((prev @ take k v) @ drop k v)" "newHash w' = newHash w4"
      "closer (under w') = closer (under w4)"
      by blast
    with step k(2) show ?thesis
      by (auto simp: w4_def)
  next
    case False
    then have small: "length (pending I prev) + length v < I" using w(3,5) by simp
    note app = append_within_block [OF I small, of "newHash w"]
    show ?thesis
    proof (cases "v = []")
      case True
      with False less.prems(2) show ?thesis
        by (subst Write_loop.simps) simp
    next
      case nonempty: False
      with False w app show ?thesis
        by (subst Write_loop.simps)
           (simp add: delegate_Write_live writing_def)
    qed
  qed
qed


lemma writing_new:
  "room d = None \<Longrightarrow> written d = [] \<Longrightarrow> writing I (newChecksummedWriterImpl d (int I) nh) []"
  by (simp add: writing_def newChecksummedWriterImpl_def)

lemma Write_all_live:
  "0 < I \<Longrightarrow> writing I w prev \<Longrightarrow>
   \<exists>w'. Write_all w vs = Some (Done (None, w')) \<and> writing I w' (prev @ concat vs)
        \<and> newHash w' = newHash w \<and> closer (under w') = closer (under w)"
proof (induction vs arbitrary: w prev)
  case Nil
  then show ?case by simp
next
  case (Cons v vs)
  from Write_loop_live [OF Cons.prems, of v 0]
  obtain w1 where w1: "Write w v = Some (Done (int (length v), None, w1))"
    "writing I w1 (prev @ v)" "newHash w1 = newHash w" "closer (under w1) = closer (under w)"
    by (auto simp: Write_def)
  from Cons.IH [OF Cons.prems(1) w1(2)] w1 show ?case
    by auto
qed

lemma Close_w_live:
  assumes I: "0 < I" and w: "writing I w c"
  shows "\<exists>w'. Close_w w = (None, w') \<and> delegate w' = ERR_DELEGATE
      \<and> written (under w') = layout (newHash w) I c
      \<and> written (under w') = written (under w) @
           (if length c mod I = 0 then []
            else PutUint32 (newHash w (drop (length c - length c mod I) c)))"
proof -
  have len: "length (pending I c) = length c mod I" using I by (rule length_pending_mod)
  have dr: "pending I c = drop (length c - length c mod I) c" using I by (rule pending_eq_drop)
  have lay: "layout (newHash w) I c = open_layout (newHash w) I c
      @ (if pending I c = [] then [] else PutUint32 (newHash w (pending I c)))"
    using I by (rule layout_open)
  show ?thesis
  proof (cases "length c mod I = 0")
    case True
    with len have "pending I c = []" by simp
    with w lay True show ?thesis
      by (simp add: Close_w_def writing_def delegate_Close_w_def)
  next
    case False
    with len have ne: "pending I c \<noteq> []" by auto
    with w lay False dr len show ?thesis
      by (simp add: Close_w_def writing_def delegate_Close_w_def delegate_Write_live)
  qed
qed

lemma delegate_Write_fields:
  "delegate_Write w v = (n, e, w') \<Longrightarrow>
     checksumInterval w' = checksumInterval w \<and> checksumOffset w' = checksumOffset w
     \<and> delegate w' = delegate w \<and> hash w' = hash w \<and> newHash w' = newHash w"
  by (auto simp: delegate_Write_def split: delegate.splits prod.splits)

lemma Write_loop_returns_inside:
  "1 \<le> checksumInterval w \<Longrightarrow> checksumOffset w < checksumInterval w \<Longrightarrow>
   \<exists>res. Write_loop w v n = Some res"
proof (induction "length v" arbitrary: w v n rule: less_induct)
  case less
  show ?case
  proof (cases "checksumOffset w + int (length v) \<ge> checksumInterval w")
    case False
    then show ?thesis
      by (subst Write_loop.simps) (simp split: prod.splits)
  next
    case True
    define k where "k = nat (checksumInterval w - checksumOffset w)"
    have k: "0 < k" "k \<le> length v" using True less.prems by (auto simp: k_def)
    obtain n2 err w1 where d1: "delegate_Write w (take k v) = (n2, err, w1)"
      by (cases "delegate_Write w (take k v)") auto
    define w2 where "w2 = w1\<lparr>hash := hash w1 @ take k v\<rparr>"
    obtain n3 err2 w3 where d2: "delegate_Write w2 (PutUint32 (newHash w2 (hash w2))) = (n3, err2, w3)"
      by (cases "delegate_Write w2 (PutUint32 (newHash w2 (hash w2)))") auto
    have unf: "Write_loop w v n =
        (if err \<noteq> None then Some (Done (n + n2, err, w1\<lparr>delegate := ERR_DELEGATE\<rparr>))
         else if err2 \<noteq> None then Some (Done (n + n2, err2, w3\<lparr>delegate := ERR_DELEGATE\<rparr>))
         else Write_loop (w3\<lparr>hash := [], checksumOffset := 0\<rparr>) (drop k v) (n + n2))"
      using True less.prems d1 d2
      by (subst Write_loop.simps) (simp add: k_def [symmetric] w2_def [symmetric] Let_def)
    have "checksumInterval w3 = checksumInterval w"
      using delegate_Write_fields [OF d1] delegate_Write_fields [OF d2] by (simp add: w2_def)
    moreover have "length (drop k v) < length v" using k by simp
    ultimately have "\<exists>res. Write_loop (w3\<lparr>hash := [], checksumOffset := 0\<rparr>) (drop k v) (n + n2) = Some res"
      using less.hyps [of "drop k v" "w3\<lparr>hash := [], checksumOffset := 0\<rparr>" "n + n2"] less.prems(1)
      by simp
    with unf show ?thesis by auto
  qed
qed

lemma Write_loop_returns:
  assumes "1 \<le> checksumInterval w"
  shows "\<exists>res. Write_loop w v n = Some res"
proof (cases "checksumOffset w < checksumInterval w")
  case True
  with assms show ?thesis by (rule Write_loop_returns_inside)
next
  case False
  show ?thesis
  proof (cases "checksumInterval w - checksumOffset w < 0")
    case True
    with False show ?thesis by (subst Write_loop.simps) simp
  next
    case eq: False
    with False have k: "nat (checksumInterval w - checksumOffset w) = 0" by simp
    obtain n2 err w1 where d1: "delegate_Write w [] = (n2, err, w1)"
      by (cases "delegate_Write w []") auto
    obtain n3 err2 w3 where d2: "delegate_Write w1 (PutUint32 (newHash w1 (hash w1))) = (n3, err2, w3)"
      by (cases "delegate_Write w1 (PutUint32 (newHash w1 (hash w1)))") auto
    have unf: "Write_loop w v n =
        (if err \<noteq> None then Some (Done (n + n2, err, w1\<lparr>delegate := ERR_DELEGATE\<rparr>))
         else if err2 \<noteq> None then Some (Done (n + n2, err2, w3\<lparr>delegate := ERR_DELEGATE\<rparr>))
         else Write_loop (w3\<lparr>hash := [], checksumOffset := 0\<rparr>) v (n + n2))"
      using False eq d1 d2 k
      by (subst Write_loop.simps) (simp add: Let_def)
    have "checksumInterval w3 = checksumInterval w"
      using delegate_Write_fields [OF d1] delegate_Write_fields [OF d2] by simp
    with assms have "\<exists>res. Write_loop (w3\<lparr>hash := [], checksumOffset := 0\<rparr>) v (n + n2) = Some res"
      by (intro Write_loop_returns_inside) simp_all
    with unf show ?thesis by auto
  qed
qed

lemma Write_loop_spins_aux:
  assumes "Write_loop w0 v0 n0 = Some y0"
  shows "\<not> spinning w0"
proof (rule Write_loop.raw_induct [where P = "\<lambda>w v n y. \<not> spinning w", OF _ assms], goal_cases)
  case (1 rec w v n y)
  show "\<not> spinning w"
  proof
    assume s: "spinning w"
    define w' where "w' = w\<lparr>under := (under w)\<lparr>written := written (under w) @ PutUint32 (newHash w (hash w))\<rparr>,
         hash := [], checksumOffset := 0\<rparr>"
    have r: "rec w' v n = Some y"
      using 1(2) s by (simp add: spinning_def delegate_Write_live Let_def w'_def)
    have "spinning w'" using s by (simp add: spinning_def w'_def)
    with 1(1) [OF r] show False by simp
  qed
qed


lemma Write_spins: "spinning w \<Longrightarrow> Write w v = None"
  using Write_loop_spins_aux [of w v 0] by (cases "Write w v") (auto simp: Write_def)

section \<open>Claims about the writer\<close>

text \<open>
  C3. For every interval \<open>I \<ge> 1\<close> and every content, handed over in any number of
  pieces, \<^verbatim>\<open>Write\<close> followed by \<^verbatim>\<open>Close\<close> on a sink that does not fail succeeds and
  leaves exactly the layout of the content in the sink, which is
  \<open>C + 4 * \<lceil>C / I\<rceil>\<close> bytes for a content of \<open>C\<close> bytes. When \<open>C\<close> is a multiple of
  \<open>I\<close>, \<^verbatim>\<open>Close\<close> adds nothing to what \<^verbatim>\<open>Write\<close> left there; otherwise it adds the
  4-byte digest of the last \<open>C mod I\<close> content bytes.
\<close>

theorem writer_emits_layout:
  assumes "1 \<le> I" and "room d = None" and "written d = []"
  shows "\<exists>w1 w2.
      Write_all (newChecksummedWriterImpl d (int I) nh) vs = Some (Done (None, w1)) \<and>
      Close_w w1 = (None, w2) \<and>
      written (under w2) = layout nh I (concat vs) \<and>
      length (written (under w2)) = length (concat vs) + 4 * ((length (concat vs) + I - 1) div I) \<and>
      written (under w2) = written (under w1) @
        (if length (concat vs) mod I = 0 then []
         else PutUint32 (nh (drop (length (concat vs) - length (concat vs) mod I) (concat vs))))"
proof -
  let ?c = "concat vs"
  from assms have I: "0 < I" by simp
  from Write_all_live [OF I writing_new [OF assms(2,3)], of nh vs]
  obtain w1 where w1: "Write_all (newChecksummedWriterImpl d (int I) nh) vs = Some (Done (None, w1))"
    "writing I w1 ?c" "newHash w1 = nh"
    by (auto simp: newChecksummedWriterImpl_def)
  from Close_w_live [OF I w1(2)] w1(3)
  obtain w2 where w2: "Close_w w1 = (None, w2)" "written (under w2) = layout nh I ?c"
    "written (under w2) = written (under w1) @
           (if length ?c mod I = 0 then []
            else PutUint32 (nh (drop (length ?c - length ?c mod I) ?c)))"
    by auto
  have "length (layout nh I ?c) = length ?c + 4 * ((length ?c + I - 1) div I)"
    using I by (rule length_layout)
  with w1(1) w2 show ?thesis by auto
qed

theorem writer_emits_layout_witness:
  "1 \<le> (16::nat) \<and> room memory_sink = None \<and> written memory_sink = [] \<and>
   (\<exists>w1 w2.
      Write_all (newChecksummedWriterImpl memory_sink 16 sum32) [[1, 2, 3], [4, 5, 6, 7, 8, 9, 10]]
        = Some (Done (None, w1)) \<and>
      Close_w w1 = (None, w2) \<and> length (written (under w2)) = 14)"
  using writer_emits_layout [of 16 memory_sink sum32 "[[1, 2, 3], [4, 5, 6, 7, 8, 9, 10]]"]
  by (auto simp: memory_sink_def)


text \<open>
  C10, as amended. With an interval of at least 1 every \<^verbatim>\<open>Write\<close> returns, whatever
  the state of the writer and of its sink. With interval 0 a \<^verbatim>\<open>Write\<close> on a fresh
  writer over a sink that never fails does not return, whatever the input. With a
  negative interval a \<^verbatim>\<open>Write\<close> on a fresh writer panics at its first slice
  expression instead of looping.
\<close>

theorem Write_returns:
  "(1 \<le> checksumInterval w \<longrightarrow> (\<exists>res. Write w v = Some res)) \<and>
   (room d = None \<longrightarrow> Write (newChecksummedWriterImpl d 0 nh) v = None) \<and>
   (I < 0 \<longrightarrow> Write (newChecksummedWriterImpl d I nh) v = Some Panic)"
proof (intro conjI impI)
  assume "1 \<le> checksumInterval w"
  then show "\<exists>res. Write w v = Some res"
    unfolding Write_def by (rule Write_loop_returns)
next
  assume "room d = None"
  then have "spinning (newChecksummedWriterImpl d 0 nh)"
    by (simp add: spinning_def newChecksummedWriterImpl_def)
  then show "Write (newChecksummedWriterImpl d 0 nh) v = None"
    by (rule Write_spins)
next
  assume "I < 0"
  then show "Write (newChecksummedWriterImpl d I nh) v = Some Panic"
    unfolding Write_def by (subst Write_loop.simps) (simp add: newChecksummedWriterImpl_def)
qed

theorem Write_returns_witness:
  "1 \<le> checksumInterval (newChecksummedWriterImpl memory_sink 2 sum32) \<and>
   (\<exists>res. Write (newChecksummedWriterImpl memory_sink 2 sum32) [1, 2, 3, 4, 5] = Some res) \<and>
   room memory_sink = None \<and>
   Write (newChecksummedWriterImpl memory_sink 0 sum32) [1, 2, 3, 4, 5] = None \<and>
   (- 1 :: int) < 0 \<and>
   Write (newChecksummedWriterImpl memory_sink (- 1) sum32) [1, 2, 3, 4, 5] = Some Panic"
  using Write_returns [of "newChecksummedWriterImpl memory_sink 2 sum32" "[1, 2, 3, 4, 5]"
      memory_sink sum32 "- 1"]
  by (simp add: memory_sink_def newChecksummedWriterImpl_def)


text \<open>
  C10 as stated says that \<^verbatim>\<open>Write\<close> does not terminate on any input when the interval
  is 0 or less. With interval \<open>-1\<close> the loop condition \<open>0 + 0 \<ge> -1\<close> holds and
  \<^verbatim>\<open>v[:-1]\<close> panics.
\<close>

theorem Write_negative_interval_counterexample:
  "Write (newChecksummedWriterImpl memory_sink (- 1) sum32) [] = Some Panic"
  unfolding Write_def by (subst Write_loop.simps) (simp add: newChecksummedWriterImpl_def)



section \<open>Lemmas on the reader\<close>

lemma ReadFull_closed:
  assumes "delegate r = ERR_DELEGATE"
  shows "ReadFull r len = ([], if len = 0 then None else Some ErrClosed, r)"
proof (cases "len = 0")
  case True
  then show ?thesis
    by (simp add: ReadFull_def ReadFull_loop.simps [of r 0])
next
  case False
  have "ReadFull_loop r len [] None = ReadFull_loop r len [] (Some ErrClosed)"
    using False assms
    by (subst ReadFull_loop.simps) (simp add: delegate_Read_def)
  also have "\<dots> = ([], Some ErrClosed, r)"
    by (subst ReadFull_loop.simps) simp
  finally show ?thesis using False
    by (simp add: ReadFull_def)
qed

lemma ReadFull_live:
  assumes "delegate r = Underlying"
  shows "ReadFull r len =
     (take len (rest r),
      if len \<le> length (rest r) then None
      else if rest r = [] then Some EOF else Some ErrUnexpectedEOF,
      r\<lparr>under := (under r)\<lparr>position := position (under r) + min len (length (rest r))\<rparr>\<rparr>)"
proof (cases "len = 0")
  case True
  then show ?thesis
    by (simp add: ReadFull_def ReadFull_loop.simps [of r 0])
next
  case len: False
  show ?thesis
  proof (cases "rest r = []")
    case True
    then have "length (contents (under r)) \<le> position (under r)" by (simp add: rest_def)
    have "ReadFull_loop r len [] None = ReadFull_loop r len [] (Some EOF)"
      using len assms \<open>length (contents (under r)) \<le> position (under r)\<close>
      by (subst ReadFull_loop.simps) (simp add: delegate_Read_def source_Read_def)
    also have "\<dots> = ([], Some EOF, r)"
      by (subst ReadFull_loop.simps) simp
    finally show ?thesis using len True
      by (simp add: ReadFull_def)
  next
    case False
    then have lt: "position (under r) < length (contents (under r))" by (simp add: rest_def)
    define r1 where "r1 = r\<lparr>under := (under r)\<lparr>position := position (under r) + min len (length (rest r))\<rparr>\<rparr>"
    have step: "ReadFull_loop r len [] None = ReadFull_loop r1 len (take len (rest r)) None"
      using len assms lt
      apply (subst ReadFull_loop.simps)
      apply (simp add: delegate_Read_def source_Read_def Let_def rest_def r1_def min.commute)
      done
    show ?thesis
    proof (cases "len \<le> length (rest r)")
      case True
      then have "ReadFull_loop r1 len (take len (rest r)) None = (take len (rest r), None, r1)"
        by (subst ReadFull_loop.simps) simp
      with step True show ?thesis
        by (simp add: ReadFull_def r1_def)
    next
      case short: False
      then have 1: "ReadFull_loop r1 len (take len (rest r)) None
          = ReadFull_loop r1 len (take len (rest r)) (Some EOF)"
        using assms lt
        apply (subst ReadFull_loop.simps)
        apply (simp add: delegate_Read_def source_Read_def Let_def r1_def rest_def)
        done
      have 2: "ReadFull_loop r1 len (take len (rest r)) (Some EOF) = (take len (rest r), Some EOF, r1)"
        by (subst ReadFull_loop.simps) simp
      from step 1 2 short False show ?thesis
        by (simp add: ReadFull_def r1_def)
    qed
  qed
qed


lemma advance_fields [simp]:
  "delegate (advance r j) = delegate r"
  "checksumInterval (advance r j) = checksumInterval r"
  "checksumOffset (advance r j) = checksumOffset r"
  "newHash (advance r j) = newHash r"
  "contents (under (advance r j)) = contents (under r)"
  "position (under (advance r j)) = position (under r) + j"
  "rest (advance r j) = drop j (rest r)"
  by (simp_all add: advance_def rest_def add.commute)

lemma rest_offset_update [simp]: "rest (r\<lparr>checksumOffset := x\<rparr>) = rest r"
  by (simp add: rest_def)

lemma delegate_Read_live:
  assumes "delegate r = Underlying"
  shows "delegate_Read r k =
     (if rest r = [] then ([], Some EOF, r)
      else (take k (rest r), None, advance r (min k (length (rest r)))))"
  using assms
  by (auto simp: delegate_Read_def source_Read_def rest_def advance_def Let_def min.commute)

lemma ReadFull_advance:
  assumes "delegate r = Underlying"
  shows "ReadFull r len =
     (take len (rest r),
      if len \<le> length (rest r) then None
      else if rest r = [] then Some EOF else Some ErrUnexpectedEOF,
      advance r (min len (length (rest r))))"
  using ReadFull_live [OF assms] by (simp add: advance_def)

lemma Read_at_end:
  assumes "delegate r = Underlying" and "rest r = []"
    and "checksumOffset r \<le> checksumInterval r"
  shows "Read r k = Done ([], 0, Some EOF, r)"
  using assms by (simp add: Read_def delegate_Read_live Let_def)

lemma seek_back:
  assumes "delegate r = Underlying"
  shows "delegate_Seek (advance r j) (- int j) 1 = (int (position (under r)), None, r)"
  using assms by (simp add: delegate_Seek_def source_Seek_def advance_def Let_def)

lemma Read_step:
  fixes r :: checksummedReaderImpl and k off I :: nat
  assumes live: "delegate r = Underlying" and ne: "rest r \<noteq> []"
    and o: "checksumOffset r = int off" and I: "checksumInterval r = int I" and oI: "off \<le> I"
  defines "m \<equiv> min k (I - off)"
  defines "got \<equiv> take m (rest r)"
  defines "s' \<equiv> drop m (rest r)"
  shows "\<exists>r'. Read r k =
        Done (got,
              (if 4 \<le> length s' then int (length got)
               else int (length got) - (4 - int (length s'))),
              None, r')
      \<and> delegate r' = Underlying \<and> contents (under r') = contents (under r)
      \<and> checksumInterval r' = int I \<and> newHash r' = newHash r
      \<and> rest r' = (if off + length got = I then drop 4 s' else if 4 \<le> length s' then s' else [])
      \<and> checksumOffset r' = (if off + length got = I then 0 else int (off + length got))"
proof -
  have lenv: "(if checksumOffset r + int k > checksumInterval r
               then nat (checksumInterval r - checksumOffset r) else k) = m"
    using o I oI by (auto simp: m_def)
  define r2 where "r2 = (advance r (length got))\<lparr>checksumOffset := int off + int (length got)\<rparr>"
  have got_len: "length got = min m (length (rest r))" by (simp add: got_def min.commute)
  have r2: "delegate r2 = Underlying" "rest r2 = s'"
    using live by (auto simp: r2_def s'_def got_len min_def)
  have dr: "delegate_Read r m = (got, None, advance r (length got))"
    using live ne by (simp add: delegate_Read_live got_def min.commute)
  have rf: "ReadFull r2 4 = (take 4 s',
      if 4 \<le> length s' then None else if s' = [] then Some EOF else Some ErrUnexpectedEOF,
      advance r2 (min 4 (length s')))"
    using ReadFull_advance [OF r2(1), of 4] r2(2) by simp
  have nopanic: "\<not> (checksumOffset r + int k > checksumInterval r
         \<and> checksumInterval r - checksumOffset r < 0)"
    using o I oI by simp
  show ?thesis
  proof (cases "off + length got = I")
    case True
    then have b: "checksumOffset r2 = checksumInterval r2"
      using I by (simp add: r2_def)
    show ?thesis
      using nopanic True b live I
      unfolding Read_def lenv
      apply (simp add: dr Let_def o r2_def [symmetric] rf del: One_nat_def)
      apply (auto simp: r2_def s'_def got_len min_def)
      done
  next
    case False
    then have b: "checksumOffset r2 \<noteq> checksumInterval r2"
      using I by (simp add: r2_def)
    show ?thesis
    proof (cases "4 \<le> length s'")
      case True
      have "delegate_Seek (advance r2 4) (- int 4) 1 = (int (position (under r2)), None, r2)"
        using r2(1) by (rule seek_back)
      then have sb: "delegate_Seek (advance r2 4) (- 4) 1 = (int (position (under r2)), None, r2)"
        by simp
      show ?thesis
        using nopanic False b live I True
        unfolding Read_def lenv
        apply (simp add: dr Let_def o r2_def [symmetric] rf sb del: One_nat_def)
        apply (auto simp: r2_def s'_def got_len min_def)
        done
    next
      case short: False
      show ?thesis
        using nopanic False b live I short
        unfolding Read_def lenv
        apply (simp add: dr Let_def o r2_def [symmetric] rf del: One_nat_def)
        apply (auto simp: r2_def s'_def got_len min_def)
        done
    qed
  qed
qed


lemma layout_full:
  "0 < I \<Longrightarrow> I \<le> length x \<Longrightarrow>
   layout nh I x = take I x @ PutUint32 (nh (take I x)) @ layout nh I (drop I x)"
  by (subst layout.simps) auto

lemma layout_short:
  "x \<noteq> [] \<Longrightarrow> length x < I \<Longrightarrow> layout nh I x = x @ PutUint32 (nh x)"
  by (subst layout.simps) auto

lemma reading_end:
  assumes I: "0 < I" and rd: "reading nh I r c" and e: "rest r = []"
  shows "c = [] \<and> Read r k = Done ([], 0, Some EOF, r)"
proof -
  from rd obtain off where live: "delegate r = Underlying" and iv: "checksumInterval r = int I"
    and off: "checksumOffset r = int off" "off < I"
    and alt: "(rest r = [] \<and> c = []) \<or>
         (\<exists>pre. length pre = off \<and> rest r = drop off (layout nh I (pre @ c)))"
    by (auto simp: reading_def)
  have "c = []"
  proof (rule ccontr)
    assume ne: "c \<noteq> []"
    with alt obtain pre where pre: "length pre = off" "rest r = drop off (layout nh I (pre @ c))"
      by auto
    have "length (layout nh I (pre @ c)) = length (pre @ c) + 4 * ((length (pre @ c) + I - 1) div I)"
      using I by (rule length_layout)
    then have "off < length (layout nh I (pre @ c))" using pre(1) ne by simp
    with pre(2) e show False by simp
  qed
  moreover have "Read r k = Done ([], 0, Some EOF, r)"
    using live e off iv by (intro Read_at_end) simp_all
  ultimately show ?thesis by simp
qed

lemma reading_step:
  assumes I: "0 < I" and k: "1 \<le> k" and rd: "reading nh I r c" and ne: "rest r \<noteq> []"
  shows "\<exists>bs n r' j. Read r k = Done (bs, n, None, r') \<and> take (nat n) bs = take j c
      \<and> reading nh I r' (drop j c) \<and> length (rest r') < length (rest r)"
proof -
  from rd ne obtain off pre where live: "delegate r = Underlying"
    and iv: "checksumInterval r = int I"
    and off: "checksumOffset r = int off" "off < I"
    and pre: "length pre = off" "rest r = drop off (layout nh I (pre @ c))"
    by (auto simp: reading_def)
  define x where "x = pre @ c"
  define m where "m = min k (I - off)"
  define got where "got = take m (rest r)"
  define s' where "s' = drop m (rest r)"
  have m: "1 \<le> m" "off + m \<le> I" using k off by (auto simp: m_def)
  have xne: "x \<noteq> []" using ne pre(2) by (auto simp: x_def)
  have "\<exists>r'. Read r k =
        Done (got,
              (if 4 \<le> length s' then int (length got)
               else int (length got) - (4 - int (length s'))),
              None, r')
      \<and> delegate r' = Underlying \<and> contents (under r') = contents (under r)
      \<and> checksumInterval r' = int I \<and> newHash r' = newHash r
      \<and> rest r' = (if off + length got = I then drop 4 s' else if 4 \<le> length s' then s' else [])
      \<and> checksumOffset r' = (if off + length got = I then 0 else int (off + length got))"
    unfolding m_def got_def s'_def using off(2)
    by (intro Read_step [OF live ne off(1) iv]) simp
  then obtain r' where r': "Read r k = Done (got,
              (if 4 \<le> length s' then int (length got)
               else int (length got) - (4 - int (length s'))), None, r')"
    "delegate r' = Underlying" "checksumInterval r' = int I"
    "rest r' = (if off + length got = I then drop 4 s' else if 4 \<le> length s' then s' else [])"
    "checksumOffset r' = (if off + length got = I then 0 else int (off + length got))"
    by (elim exE conjE)
  have "length s' < length (rest r)"
    using ne m(1) by (cases "rest r") (simp_all add: s'_def)
  moreover have "length (rest r') \<le> length s'"
    by (simp add: r'(4))
  ultimately have shorter: "length (rest r') < length (rest r)"
    by simp
  have fin: ?thesis
    if "Read r k = Done (got, n, None, r')" and "take (nat n) got = take j c"
      and "reading nh I r' (drop j c)" for n j
    using that shorter by blast
  have generic: ?thesis
    if a: "4 \<le> length s'" and b: "off + m < I" and c: "m \<le> length c" and g: "got = take m c"
  proof -
    have lg: "length got = m" using g c by simp
    have "rest r' = s'" using r'(4) a b lg by simp
    also have "\<dots> = drop (off + m) (layout nh I ((pre @ take m c) @ drop m c))"
      using pre(2) by (simp add: s'_def add.commute)
    finally have "reading nh I r' (drop m c)"
      using r'(2,3,5) b lg pre(1) c
      unfolding reading_def
      by (intro conjI exI [of _ "off + m"] disjI2 exI [of _ "pre @ take m c"]) simp_all
    moreover have "take (nat (int (length got))) got = take m c" using g lg by simp
    moreover have "Read r k = Done (got, int (length got), None, r')" using r'(1) a by simp
    ultimately show ?thesis by (intro fin)
  qed
  show ?thesis
  proof (cases "I \<le> length x")
    case True
    then have lc: "I - off \<le> length c" using pre(1) by (simp add: x_def)
    have tk: "take I x = pre @ take (I - off) c" using pre(1) off(2) by (simp add: x_def)
    have dr: "drop I x = drop (I - off) c" using pre(1) off(2) by (simp add: x_def)
    have "rest r = drop off (layout nh I x)" using pre(2) by (simp add: x_def)
    also have "layout nh I x = take I x @ PutUint32 (nh (take I x)) @ layout nh I (drop I x)"
      by (rule layout_full [OF I True])
    finally have rr: "rest r =
        take (I - off) c @ PutUint32 (nh (take I x)) @ layout nh I (drop (I - off) c)"
      using pre(1) by (simp add: tk dr)
    have g: "got = take m c" using m lc by (simp add: got_def rr)
    have lg: "length got = m" using g m lc by simp
    have s: "s' = drop m (take (I - off) c) @ PutUint32 (nh (take I x)) @ layout nh I (drop (I - off) c)"
      using m lc by (simp add: s'_def rr)
    have a: "4 \<le> length s'" by (simp add: s)
    show ?thesis
    proof (cases "off + m = I")
      case False
      with m have "off + m < I" by simp
      moreover have "m \<le> length c" using m lc by simp
      ultimately show ?thesis using a g by (intro generic)
    next
      case eq: True
      then have mI: "m = I - off" by simp
      have "rest r' = layout nh I (drop m c)"
        using r'(4) eq lg lc by (simp add: s mI)
      then have "reading nh I r' (drop m c)"
        using r'(2,3,5) eq lg I
        unfolding reading_def
        by (intro conjI exI [of _ 0] disjI2 exI [of _ "[]"]) simp_all
      moreover have "take (nat (int (length got))) got = take m c" using g lg by simp
      moreover have "Read r k = Done (got, int (length got), None, r')" using r'(1) a by simp
      ultimately show ?thesis by (intro fin)
    qed
  next
    case False
    then have xs: "length x < I" by simp
    have "rest r = drop off (layout nh I x)" using pre(2) by (simp add: x_def)
    also have "layout nh I x = x @ PutUint32 (nh x)"
      by (rule layout_short [OF xne xs])
    finally have rr: "rest r = c @ PutUint32 (nh x)"
      using pre(1) by (simp add: x_def)
    show ?thesis
    proof (cases "m \<le> length c")
      case True
      have "4 \<le> length s'" using True by (simp add: s'_def rr)
      moreover have "off + m < I" using True xs pre(1) by (simp add: x_def)
      moreover have "got = take m c" using True by (simp add: got_def rr)
      ultimately show ?thesis using True by (intro generic)
    next
      case over: False
      then have mc: "length c < m" by simp
      have g: "got = c @ take (m - length c) (PutUint32 (nh x))"
        using mc by (simp add: got_def rr)
      have s: "s' = drop (m - length c) (PutUint32 (nh x))"
        using mc by (simp add: s'_def rr)
      have ls: "length s' = 4 - min (m - length c) 4" by (simp add: s)
      have lg: "length got = length c + min (m - length c) 4" by (simp add: g min.commute)
      have short: "\<not> 4 \<le> length s'" using mc ls by simp
      have n: "int (length got) - (4 - int (length s')) = int (length c)"
        using ls lg by simp
      have tk: "take (nat (int (length c))) got = take (length c) c" by (simp add: g)
      have e: "rest r' = []" using r'(4) short ls by simp
      have "length got \<le> m" by (simp add: got_def)
      then have "off + length got \<le> I" using m(2) by simp
      then have "\<exists>off'. checksumOffset r' = int off' \<and> off' < I"
        using r'(5) I
        by (cases "off + length got = I")
           (auto intro: exI [of _ 0] exI [of _ "off + length got"])
      then have rd': "reading nh I r' (drop (length c) c)"
        using r'(2,3) e by (auto simp: reading_def)
      have "Read r k = Done (got, int (length c), None, r')" using r'(1) short n by simp
      then show ?thesis using tk rd' by (rule fin)
    qed
  qed
qed

lemma ReadAll_reading:
  assumes I: "0 < I"
  shows "\<forall>k\<in>set ks. 1 \<le> k \<Longrightarrow> reading nh I r c \<Longrightarrow> length (rest r) < length ks \<Longrightarrow>
    ReadAll r ks = Some c"
proof (induction ks arbitrary: r c)
  case Nil
  then show ?case by simp
next
  case (Cons k ks)
  show ?case
  proof (cases "rest r = []")
    case True
    from reading_end [OF I Cons.prems(2) True, of k] show ?thesis by simp
  next
    case False
    from Cons.prems(1) have k: "1 \<le> k" by simp
    from reading_step [OF I k Cons.prems(2) False]
    obtain bs n r' j where st: "Read r k = Done (bs, n, None, r')" "take (nat n) bs = take j c"
      "reading nh I r' (drop j c)" "length (rest r') < length (rest r)"
      by blast
    from st(4) Cons.prems(3) have "length (rest r') < length ks" by simp
    with Cons.IH [OF _ st(3)] Cons.prems(1) have "ReadAll r' ks = Some (drop j c)" by simp
    with st(1,2) show ?thesis by simp
  qed
qed


lemma reading_new:
  "0 < I \<Longrightarrow> reading nh I (newChecksummedReaderImpl (memory_source (layout nh I c)) (int I) nh') c"
  unfolding reading_def
  by (intro conjI exI [of _ 0] disjI2 exI [of _ "[]"])
     (simp_all add: newChecksummedReaderImpl_def memory_source_def rest_def)

section \<open>Claims about reading back\<close>

text \<open>
  C1. For every interval \<open>I \<ge> 1\<close> and every content, written in any number of pieces
  through a writer over a sink that does not fail and closed, a reader over the
  resulting bytes with the same interval delivers exactly the content: the caller
  reads with buffers of any lengths of at least 1 until \<^verbatim>\<open>Read\<close> reports \<open>EOF\<close>, and
  one more \<^verbatim>\<open>Read\<close> than the stream has bytes is always enough.
\<close>

theorem round_trip:
  assumes "1 \<le> I" and "room d = None" and "written d = []"
    and "\<forall>k\<in>set ks. 1 \<le> k"
    and "length (concat vs) + 4 * ((length (concat vs) + I - 1) div I) < length ks"
  shows "\<exists>w1 w2.
      Write_all (newChecksummedWriterImpl d (int I) nh) vs = Some (Done (None, w1)) \<and>
      Close_w w1 = (None, w2) \<and>
      ReadAll (newChecksummedReaderImpl (memory_source (written (under w2))) (int I) nh) ks
        = Some (concat vs)"
proof -
  let ?c = "concat vs"
  from assms have I: "0 < I" by simp
  from Write_all_live [OF I writing_new [OF assms(2,3)], of nh vs]
  obtain w1 where w1: "Write_all (newChecksummedWriterImpl d (int I) nh) vs = Some (Done (None, w1))"
    "writing I w1 ?c" "newHash w1 = nh"
    by (auto simp: newChecksummedWriterImpl_def)
  from Close_w_live [OF I w1(2)] w1(3)
  obtain w2 where w2: "Close_w w1 = (None, w2)" "written (under w2) = layout nh I ?c"
    by auto
  let ?r = "newChecksummedReaderImpl (memory_source (layout nh I ?c)) (int I) nh"
  have "rest ?r = layout nh I ?c"
    by (simp add: rest_def newChecksummedReaderImpl_def memory_source_def)
  then have "length (rest ?r) < length ks"
    using assms(5) length_layout [OF I, of nh ?c] by simp
  with ReadAll_reading [OF I assms(4) reading_new [OF I]]
  have "ReadAll ?r ks = Some ?c" by blast
  with w1(1) w2 show ?thesis by simp
qed

theorem round_trip_witness:
  "\<exists>w1 w2.
      Write_all (newChecksummedWriterImpl memory_sink 2 sum32) [[1], [2, 3]] = Some (Done (None, w1)) \<and>
      Close_w w1 = (None, w2) \<and>
      ReadAll (newChecksummedReaderImpl (memory_source (written (under w2))) 2 sum32)
        [3, 1, 2, 5, 1, 1, 4, 2, 2, 1, 7, 1] = Some [1, 2, 3]"
proof -
  have h: "1 \<le> (2::nat)" "room memory_sink = None" "written memory_sink = []"
    "\<forall>k\<in>set [3, 1, 2, 5, 1, 1, 4, 2, 2, 1, 7, 1::nat]. 1 \<le> k"
    "length (concat [[1], [2, 3::byte]]) + 4 * ((length (concat [[1], [2, 3::byte]]) + 2 - 1) div 2)
     < length [3, 1, 2, 5, 1, 1, 4, 2, 2, 1, 7, 1::nat]"
    by (simp_all add: memory_sink_def)
  from round_trip [OF h, of sum32] show ?thesis by simp
qed



section \<open>Lemmas on Verify\<close>

lemma at_pos_fields [simp]:
  "delegate (at_pos r p) = delegate r"
  "checksumInterval (at_pos r p) = checksumInterval r"
  "checksumOffset (at_pos r p) = checksumOffset r"
  "newHash (at_pos r p) = newHash r"
  "contents (under (at_pos r p)) = contents (under r)"
  "position (under (at_pos r p)) = p"
  "rest (at_pos r p) = drop p (contents (under r))"
  "at_pos (at_pos r p) q = at_pos r q"
  by (simp_all add: at_pos_def rest_def)

lemma at_pos_same [simp]: "at_pos r (position (under r)) = r"
  by (simp add: at_pos_def)

lemma advance_at_pos: "advance r j = at_pos r (position (under r) + j)"
  by (simp add: advance_def at_pos_def)

lemma delegate_Seek_cur:
  "delegate r = Underlying \<Longrightarrow> delegate_Seek r 0 1 = (int (position (under r)), None, r)"
  by (simp add: delegate_Seek_def source_Seek_def)

lemma delegate_Seek_rel:
  "delegate r = Underlying \<Longrightarrow> j \<le> position (under r) \<Longrightarrow>
   delegate_Seek r (- int j) 1
     = (int (position (under r) - j), None, at_pos r (position (under r) - j))"
  by (simp add: delegate_Seek_def source_Seek_def at_pos_def Let_def nat_diff_distrib')

lemma delegate_Seek_abs:
  "delegate r = Underlying \<Longrightarrow> delegate_Seek r (int p) 0 = (int p, None, at_pos r p)"
  by (simp add: delegate_Seek_def source_Seek_def at_pos_def Let_def)

lemma ReadFull_at_pos:
  assumes "delegate r = Underlying" and "drop b (contents (under r)) = s"
  shows "ReadFull (at_pos r b) len =
     (take len s,
      if len \<le> length s then None else if s = [] then Some EOF else Some ErrUnexpectedEOF,
      at_pos r (b + min len (length s)))"
proof -
  have "delegate (at_pos r b) = Underlying" using assms(1) by simp
  from ReadFull_advance [OF this, of len] have "ReadFull (at_pos r b) len =
     (take len (rest (at_pos r b)),
      if len \<le> length (rest (at_pos r b)) then None
      else if rest (at_pos r b) = [] then Some EOF else Some ErrUnexpectedEOF,
      at_pos r (b + min len (length (rest (at_pos r b)))))"
    by (simp only: advance_at_pos at_pos_fields)
  moreover have "rest (at_pos r b) = s" using assms(2) by simp
  ultimately show ?thesis by (simp only:)
qed

lemma Verify_prelude:
  assumes live: "delegate r = Underlying"
    and off: "checksumOffset r = int off" and pos: "position (under r) = b + off"
    and iv: "checksumInterval r = int I"
    and rf: "ReadFull (at_pos r b) (I + 4) = (buf, err3, r3)"
  shows "Verify r =
     (if err3 = Some ErrUnexpectedEOF then
        (if length buf < 4 then Panic
         else Verify_finish r3 (int (b + off))
                (drop (length buf - 4) buf) (take (length buf - 4) buf))
      else if err3 \<noteq> None then Done (False, err3, r3)
      else Verify_finish r3 (int (b + off))
             (drop (nat (checksumInterval r3)) buf) (take (nat (checksumInterval r3)) buf))"
proof (cases "off = 0")
  case True
  with pos have "at_pos r b = r" by (simp add: at_pos_def)
  with rf have "ReadFull r (I + 4) = (buf, err3, r3)" by simp
  with True live off pos iv show ?thesis
    by (simp add: Verify_def delegate_Seek_cur nat_add_distrib)
next
  case False
  have "delegate_Seek r (- int off) 1 = (int b, None, at_pos r b)"
    using delegate_Seek_rel [OF live, of off] pos by simp
  with False live off pos iv rf show ?thesis
    by (simp add: Verify_def delegate_Seek_cur nat_add_distrib)
qed

lemma Verify_block:
  assumes live: "delegate r = Underlying"
    and off: "checksumOffset r = int off" and pos: "position (under r) = b + off"
    and iv: "checksumInterval r = int I"
    and blk: "drop b (contents (under r)) = blk @ dig @ after" "length dig = 4"
    and shape: "length blk = I \<or> (length blk < I \<and> after = [])"
  shows "Verify r = Done (dig = PutUint32 (newHash r blk), None, r)"
proof -
  note rf = ReadFull_at_pos [OF live blk(1), of "I + 4"]
  have restore: "delegate_Seek (at_pos r p) (int b + int off) 0 = (int b + int off, None, r)" for p
    using delegate_Seek_abs [of "at_pos r p" "b + off"] live pos by (simp add: at_pos_def)
  from shape show ?thesis
  proof
    assume full: "length blk = I"
    have "ReadFull (at_pos r b) (I + 4) = (blk @ dig, None, at_pos r (b + (I + 4)))"
      using full blk(2) by (simp add: rf)
    from Verify_prelude [OF live off pos iv this] show ?thesis
      using full iv by (simp add: Verify_finish_def restore)
  next
    assume part: "length blk < I \<and> after = []"
    have "dig \<noteq> []" using blk(2) by auto
    then have "ReadFull (at_pos r b) (I + 4)
        = (blk @ dig, Some ErrUnexpectedEOF, at_pos r (b + (length blk + 4)))"
      using part blk(2) by (auto simp: rf)
    from Verify_prelude [OF live off pos iv this] show ?thesis
      using blk(2) by (simp add: Verify_finish_def restore)
  qed
qed

lemma Verify_panics_short:
  assumes live: "delegate r = Underlying"
    and off: "checksumOffset r = int off" and pos: "position (under r) = b + off"
    and iv: "checksumInterval r = int I"
    and few: "b < length (contents (under r))" "length (contents (under r)) \<le> b + 3"
  shows "Verify r = Panic"
proof -
  define s where "s = drop b (contents (under r))"
  have s: "s \<noteq> []" "length s < 4" using few by (auto simp: s_def)
  have "ReadFull (at_pos r b) (I + 4) = (s, Some ErrUnexpectedEOF, at_pos r (b + length s))"
    using ReadFull_at_pos [OF live s_def [symmetric], of "I + 4"] s by simp
  from Verify_prelude [OF live off pos iv this] s show ?thesis by simp
qed

lemma Verify_preserves:
  assumes "Verify r = Done (b, None, r')"
  shows "r' = r"
proof (cases "delegate r")
  case ERR_DELEGATE
  with assms show ?thesis by (simp add: Verify_def delegate_Seek_def)
next
  case Underlying
  note live = this
  have cur: "delegate_Seek r 0 1 = (int (position (under r)), None, r)"
    using live by (rule delegate_Seek_cur)
  obtain p e2 r2 where s2: "(if checksumOffset r > 0 then delegate_Seek r (- checksumOffset r) 1
                  else (0, None, r)) = (p, e2, r2)"
    by (cases "(if checksumOffset r > 0 then delegate_Seek r (- checksumOffset r) 1
                  else (0, None, r))") auto
  have r2: "\<exists>q. r2 = at_pos r q"
    using s2 live
    by (auto simp: delegate_Seek_def source_Seek_def at_pos_def Let_def split: if_splits
        intro: exI [of _ "position (under r)"])
  then obtain q where q: "r2 = at_pos r q" by blast
  have l2: "delegate r2 = Underlying" using q live by simp
  obtain buf e3 r3 where rf: "ReadFull r2 (nat (checksumInterval r2 + 4)) = (buf, e3, r3)"
    by (cases "ReadFull r2 (nat (checksumInterval r2 + 4))") auto
  have r3: "\<exists>q'. r3 = at_pos r q'"
    using rf ReadFull_advance [OF l2, of "nat (checksumInterval r2 + 4)"] q
    by (auto simp: advance_at_pos)
  then obtain q' where q': "r3 = at_pos r q'" by blast
  have fin: "Verify_finish r3 (int (position (under r))) cs bl = Done (v, None, r'') \<Longrightarrow> r'' = r"
    for cs bl v r''
    using delegate_Seek_abs [of r3 "position (under r)"] live q'
    by (auto simp: Verify_finish_def)
  from assms show ?thesis
    unfolding Verify_def cur
    by (auto simp: s2 rf Let_def split: if_splits dest: fin)
qed


lemma int64_id: "- (2 ^ 63) \<le> x \<Longrightarrow> x < 2 ^ 63 \<Longrightarrow> int64 x = x"
  unfolding int64_def by (rule signed_take_bit_int_eq_self)

section \<open>Claims about Verify and Read\<close>

text \<open>
  C9. \<^verbatim>\<open>Verify\<close> panics when the source holds at least 1 and at most 3 bytes from
  the start of the block under the cursor: \<^verbatim>\<open>io.ReadFull\<close> reports
  \<^verbatim>\<open>ErrUnexpectedEOF\<close> with \<open>n < 4\<close> and \<^verbatim>\<open>block[n-4 : n]\<close> has a negative bound.
  A fresh reader over a source of two bytes is such a state.
\<close>

theorem Verify_panics:
  assumes "delegate r = Underlying" and "0 \<le> checksumInterval r" and "0 \<le> checksumOffset r"
    and "nat (checksumOffset r) \<le> position (under r)"
    and "position (under r) - nat (checksumOffset r) < length (contents (under r))"
    and "length (contents (under r)) \<le> position (under r) - nat (checksumOffset r) + 3"
  shows "Verify r = Panic"
  using assms
  by (intro Verify_panics_short [where off = "nat (checksumOffset r)"
        and I = "nat (checksumInterval r)"
        and b = "position (under r) - nat (checksumOffset r)"]) simp_all

theorem Verify_panics_witness:
  "Verify (newChecksummedReaderImpl (memory_source [1, 2]) 16 sum32) = Panic"
  using Verify_panics [of "newChecksummedReaderImpl (memory_source [1, 2]) 16 sum32"]
  by (simp add: newChecksummedReaderImpl_def memory_source_def)


text \<open>
  C6. Whenever \<^verbatim>\<open>Verify\<close> returns without error, the position of the source and the
  in-block offset of the reader are what they were before the call, whether the
  checksum matched or not.
\<close>

theorem Verify_restores:
  assumes "Verify r = Done (b, None, r')"
  shows "position (under r') = position (under r) \<and> checksumOffset r' = checksumOffset r"
  using Verify_preserves [OF assms] by simp

theorem Verify_restores_witness:
  "\<exists>b r'. Verify (\<lparr>delegate = Underlying,
                  under = \<lparr>contents = [1, 2, 0, 0, 0, 9], position = 1, srcCloser = True\<rparr>,
                  checksumInterval = 4, checksumOffset = 1, newHash = sum32, hash = []\<rparr>)
       = Done (b, None, r') \<and> position (under r') = 1 \<and> checksumOffset r' = 1"
proof -
  let ?r = "\<lparr>delegate = Underlying,
                  under = \<lparr>contents = [1, 2, 0, 0, 0, 9], position = 1, srcCloser = True\<rparr>,
                  checksumInterval = 4, checksumOffset = 1, newHash = sum32, hash = []\<rparr>"
  have v: "Verify ?r = Done ([0, 0, 0, 9] = PutUint32 (newHash ?r [1, 2]), None, ?r)"
    by (rule Verify_block [where off = 1 and b = 0 and I = 4 and after = "[]"]) simp_all
  from Verify_restores [OF v] v show ?thesis by auto
qed


text \<open>
  C4 says that a \<^verbatim>\<open>Read\<close> which meets the end of the source while it consumes the
  digest reports the count of content bytes and surfaces end-of-stream. The count is
  right, the error is not: with interval 4 and the stream of the content \<open>[1, 2]\<close>
  (two content bytes and their digest), a \<^verbatim>\<open>Read\<close> into a buffer of 4 bytes takes the
  two content bytes and two digest bytes, finds only two more bytes for the digest, and
  returns \<open>(2, nil)\<close>. The \<^verbatim>\<open>err = io.EOF\<close> of the source is assigned to the inner,
  shadowing \<^verbatim>\<open>err\<close>.
\<close>

theorem Read_swallows_EOF:
  "Read (newChecksummedReaderImpl (memory_source [1, 2, 0, 0, 0, 3]) 4 sum32) 4 =
     Done ([1, 2, 0, 0], 2, None,
           \<lparr>delegate = Underlying,
            under = \<lparr>contents = [1, 2, 0, 0, 0, 3], position = 6, srcCloser = True\<rparr>,
            checksumInterval = 4, checksumOffset = 0, newHash = sum32, hash = []\<rparr>)"
  by (simp add: Read_def newChecksummedReaderImpl_def memory_source_def delegate_Read_def
      source_Read_def ReadFull_live rest_def Let_def)



section \<open>Lemmas on Seek\<close>

lemma sdiv_abs_le: "\<bar>x sdiv y\<bar> \<le> \<bar>x\<bar>" for x y :: int
  using sdiv_int_range [of x y] by auto

lemma sdiv_nonneg: "0 \<le> x \<Longrightarrow> 0 < y \<Longrightarrow> x sdiv y = x div y" for x y :: int
  by (cases "x = 0") (simp_all add: signed_divide_int_def)

lemma sdiv_neg: "x < 0 \<Longrightarrow> 0 < y \<Longrightarrow> x sdiv y \<le> 0" for x y :: int
  by (simp add: signed_divide_int_def pos_imp_zdiv_nonneg_iff)

lemma smod_nonneg: "0 \<le> x \<Longrightarrow> 0 < y \<Longrightarrow> x smod y = x mod y" for x y :: int
  by (cases "x = 0") (simp_all add: signed_modulo_int_def)

lemma int64_num: "- 9223372036854775808 \<le> x \<Longrightarrow> x < 9223372036854775808 \<Longrightarrow> int64 x = x"
  using int64_id [of x] by simp

lemma physicalOf_small:
  assumes "\<bar>x\<bar> < 1152921504606846976"
  shows "physicalOf I x = x + 4 * (x sdiv I)"
proof -
  have b: "\<bar>x sdiv I\<bar> < 1152921504606846976" using sdiv_abs_le [of x I] assms by linarith
  then have 1: "int64 (x sdiv I) = x sdiv I" by (intro int64_num) linarith+
  have 2: "int64 (x sdiv I * 4) = x sdiv I * 4" using b by (intro int64_num) linarith+
  have 3: "int64 (x + x sdiv I * 4) = x + x sdiv I * 4" using b assms by (intro int64_num) linarith+
  show ?thesis by (simp add: physicalOf_def 1 2 3)
qed

lemma logicalOf_small:
  assumes "\<bar>x\<bar> < 1152921504606846976"
  shows "logicalOf I x = x - 4 * (x sdiv I)"
proof -
  have b: "\<bar>x sdiv I\<bar> < 1152921504606846976" using sdiv_abs_le [of x I] assms by linarith
  then have 1: "int64 (x sdiv I) = x sdiv I" by (intro int64_num) linarith+
  have 2: "int64 (x sdiv I * 4) = x sdiv I * 4" using b by (intro int64_num) linarith+
  have 3: "int64 (x - x sdiv I * 4) = x - x sdiv I * 4" using b assms by (intro int64_num) linarith+
  show ?thesis by (simp add: logicalOf_def 1 2 3)
qed

lemma blockOffset_physical:
  assumes I: "1 \<le> I" "I < 1152921504606846976" and x: "0 \<le> x"
  shows "blockOffset I (x + 4 * (x sdiv I)) = x mod I"
proof -
  have i4: "int64 (I + 4) = I + 4" using I by (intro int64_num) linarith+
  have d: "x sdiv I = x div I" using x I by (intro sdiv_nonneg) linarith+
  have "x + 4 * (x div I) = (I + 4) * (x div I) + x mod I"
    by (simp add: algebra_simps)
  moreover have "0 \<le> x mod I" using I by simp
  moreover have "x mod I < I" using I by simp
  then have "x mod I < I + 4" by linarith
  ultimately have "(x + 4 * (x div I)) mod (I + 4) = x mod I"
    by (metis mod_mult_self4 mod_pos_pos_trivial)
  moreover have "0 \<le> x + 4 * (x div I)" using x I by (simp add: pos_imp_zdiv_nonneg_iff)
  ultimately show ?thesis
    using I by (simp add: blockOffset_def i4 d smod_nonneg)
qed

lemma physical_negative:
  fixes x I :: int
  assumes "1 \<le> I" and "x < 0"
  shows "x + 4 * (x sdiv I) < 0"
  using sdiv_neg [of x I] assms by linarith


lemma blockOffset_0: "blockOffset I 0 = 0"
  by (simp add: blockOffset_def)

lemma logicalOf_0: "logicalOf I 0 = 0"
  by (simp add: logicalOf_def int64_def)

lemma int64_interval:
  "1 \<le> I \<Longrightarrow> I < 1152921504606846976 \<Longrightarrow> int64 (I + 4) = I + 4 \<and> int64 (I + 4) \<noteq> 0"
proof -
  assume a: "1 \<le> I" "I < 1152921504606846976"
  then have "int64 (I + 4) = I + 4" by (intro int64_num) linarith+
  with a show ?thesis by simp
qed

lemma Seek_to_closed:
  assumes "delegate r = ERR_DELEGATE" and "1 \<le> checksumInterval r"
    and "checksumInterval r < 1152921504606846976"
  shows "Seek_to r x = Done (0, Some ErrClosed, r\<lparr>checksumOffset := 0\<rparr>)"
  using assms int64_interval [of "checksumInterval r"]
  by (simp add: Seek_to_def delegate_Seek_def blockOffset_0 logicalOf_0)

lemma Seek_to_negative:
  assumes "delegate r = Underlying" and "1 \<le> checksumInterval r"
    and "checksumInterval r < 1152921504606846976"
    and "x < 0" and "\<bar>x\<bar> < 1152921504606846976"
  shows "Seek_to r x = Done (0, Some ErrNegativePosition, r\<lparr>checksumOffset := 0\<rparr>)"
proof -
  have "physicalOf (checksumInterval r) x < 0"
    using physical_negative [OF assms(2,4)] by (simp add: physicalOf_small [OF assms(5)])
  then show ?thesis
    using assms int64_interval [of "checksumInterval r"]
    by (simp add: Seek_to_def delegate_Seek_def source_Seek_def blockOffset_0 logicalOf_0 Let_def)
qed

lemma Seek_to_live:
  assumes "delegate r = Underlying" and "1 \<le> checksumInterval r"
    and "checksumInterval r < 1152921504606846976"
    and "0 \<le> x" and "x < 1152921504606846976"
  shows "Seek_to r x =
     Done (logicalOf (checksumInterval r) (x + 4 * (x div checksumInterval r)), None,
           (at_pos r (nat (x + 4 * (x div checksumInterval r))))
             \<lparr>checksumOffset := x mod checksumInterval r\<rparr>)"
proof -
  let ?I = "checksumInterval r"
  have ax: "\<bar>x\<bar> < 1152921504606846976" using assms(4,5) by simp
  have d: "x sdiv ?I = x div ?I" using assms by (intro sdiv_nonneg) linarith+
  have p: "physicalOf ?I x = x + 4 * (x div ?I)"
    by (simp add: physicalOf_small [OF ax] d)
  have nn: "0 \<le> x + 4 * (x div ?I)"
    using assms by (simp add: pos_imp_zdiv_nonneg_iff)
  have bo: "blockOffset ?I (x + 4 * (x div ?I)) = x mod ?I"
    using blockOffset_physical [OF assms(2,3,4)] by (simp add: d)
  show ?thesis
    using assms(1,2) int64_interval [OF assms(2,3)] nn
    by (simp add: Seek_to_def p delegate_Seek_def source_Seek_def Let_def bo at_pos_def)
qed

lemma Seek_to_offset:
  assumes "1 \<le> checksumInterval r" and "checksumInterval r < 1152921504606846976"
    and "\<bar>x\<bar> < 1152921504606846976"
  shows "\<exists>n e r'. Seek_to r x = Done (n, e, r') \<and> 0 \<le> checksumOffset r'
      \<and> checksumOffset r' < checksumInterval r \<and> checksumInterval r' = checksumInterval r
      \<and> delegate r' = delegate r"
proof (cases "delegate r")
  case ERR_DELEGATE
  from Seek_to_closed [OF this assms(1,2)] assms(1) ERR_DELEGATE show ?thesis by simp
next
  case Underlying
  show ?thesis
  proof (cases "x < 0")
    case True
    from Seek_to_negative [OF Underlying assms(1,2) True assms(3)] assms(1) Underlying
    show ?thesis by simp
  next
    case False
    then have x: "0 \<le> x" "x < 1152921504606846976" using assms(3) by simp_all
    from Seek_to_live [OF Underlying assms(1,2) x] assms(1) Underlying
    show ?thesis by simp
  qed
qed

lemma Seek_offset:
  assumes I: "1 \<le> checksumInterval r" "checksumInterval r < 144115188075855872"
    and inv: "0 \<le> checksumOffset r" "checksumOffset r < checksumInterval r"
    and x: "\<bar>x\<bar> < 144115188075855872"
    and src: "position (under r) < 144115188075855872"
      "length (contents (under r)) < 144115188075855872"
  shows "\<exists>n e r'. Seek r x whence = Done (n, e, r') \<and> 0 \<le> checksumOffset r'
      \<and> checksumOffset r' < checksumInterval r \<and> checksumInterval r' = checksumInterval r
      \<and> delegate r' = delegate r"
proof -
  let ?I = "checksumInterval r"
  have I60: "?I < 1152921504606846976" using I(2) by linarith
  note i4 = int64_interval [OF I(1) I60]
  consider "whence = 0" | "whence = 1 \<or> whence = 2" | "whence \<noteq> 0 \<and> whence \<noteq> 1 \<and> whence \<noteq> 2"
    by blast
  then show ?thesis
  proof cases
    case 1
    have "\<bar>x\<bar> < 1152921504606846976" using x by linarith
    from Seek_to_offset [OF I(1) I60 this] 1 show ?thesis by (simp add: Seek_def)
  next
    case 3
    then show ?thesis using inv
      by (auto simp: Seek_def delegate_Seek_def source_Seek_def split: delegate.splits)
  next
    case 2
    show ?thesis
    proof (cases "delegate r")
      case ERR_DELEGATE
      with 2 I i4 show ?thesis
        by (auto simp: Seek_def delegate_Seek_def blockOffset_0 logicalOf_0)
    next
      case Underlying
      define p where "p = (if whence = 1 then int (position (under r))
                           else int (length (contents (under r))))"
      have pb: "0 \<le> p" "p < 144115188075855872" using src by (auto simp: p_def)
      have ds: "delegate_Seek r 0 whence = (p, None, at_pos r (nat p))"
        using 2 Underlying
        by (auto simp: delegate_Seek_def source_Seek_def p_def at_pos_def Let_def)
      define r2 where "r2 = (at_pos r (nat p))\<lparr>checksumOffset := blockOffset ?I p\<rparr>"
      have ap: "\<bar>p\<bar> < 1152921504606846976" using pb by linarith
      have "\<bar>p sdiv ?I\<bar> \<le> \<bar>p\<bar>" by (rule sdiv_abs_le)
      then have lb: "\<bar>p - 4 * (p sdiv ?I)\<bar> < 720575940379279360" using pb by linarith
      have lg: "logicalOf ?I p = p - 4 * (p sdiv ?I)" by (rule logicalOf_small [OF ap])
      have tb: "\<bar>logicalOf ?I p + x\<bar> < 1152921504606846976" using lb x by (simp add: lg)
      then have t: "int64 (logicalOf ?I p + x) = logicalOf ?I p + x"
        by (intro int64_num) linarith+
      have r2I: "checksumInterval r2 = ?I" "delegate r2 = delegate r" by (simp_all add: r2_def)
      have st: "Seek r x whence = Seek_to r2 (logicalOf ?I p + x)"
        using 2 I i4 by (auto simp: Seek_def ds r2_def Let_def t)
      from Seek_to_offset [of r2 "logicalOf ?I p + x"] I(1) I60 tb r2I
      show ?thesis by (simp add: st)
    qed
  qed
qed

lemma Read_offset:
  assumes I: "1 \<le> checksumInterval r"
    and inv: "0 \<le> checksumOffset r" "checksumOffset r < checksumInterval r"
  shows "\<exists>bs n e r'. Read r k = Done (bs, n, e, r') \<and> 0 \<le> checksumOffset r'
      \<and> checksumOffset r' < checksumInterval r \<and> checksumInterval r' = checksumInterval r
      \<and> delegate r' = delegate r"
proof (cases "delegate r")
  case ERR_DELEGATE
  then have "Read r k = Done ([], 0, Some ErrClosed, r)"
    using inv by (simp add: Read_def delegate_Read_def Let_def)
  with inv show ?thesis by simp
next
  case Underlying
  show ?thesis
  proof (cases "rest r = []")
    case True
    from Read_at_end [OF Underlying True, of k] inv show ?thesis by simp
  next
    case False
    have o: "checksumOffset r = int (nat (checksumOffset r))"
      and i: "checksumInterval r = int (nat (checksumInterval r))"
      and oi: "nat (checksumOffset r) \<le> nat (checksumInterval r)"
      using I inv by simp_all
    define m where "m = min k (nat (checksumInterval r) - nat (checksumOffset r))"
    define got where "got = take m (rest r)"
    define s' where "s' = drop m (rest r)"
    have "\<exists>r'. Read r k =
        Done (got,
              (if 4 \<le> length s' then int (length got)
               else int (length got) - (4 - int (length s'))),
              None, r')
      \<and> delegate r' = Underlying \<and> contents (under r') = contents (under r)
      \<and> checksumInterval r' = int (nat (checksumInterval r)) \<and> newHash r' = newHash r
      \<and> rest r' = (if nat (checksumOffset r) + length got = nat (checksumInterval r)
                   then drop 4 s' else if 4 \<le> length s' then s' else [])
      \<and> checksumOffset r' = (if nat (checksumOffset r) + length got = nat (checksumInterval r)
                   then 0 else int (nat (checksumOffset r) + length got))"
      unfolding m_def got_def s'_def by (rule Read_step [OF Underlying False o i oi])
    then obtain n r' where r': "Read r k = Done (got, n, None, r')" "delegate r' = Underlying"
      "checksumInterval r' = int (nat (checksumInterval r))"
      "checksumOffset r' = (if nat (checksumOffset r) + length got = nat (checksumInterval r)
                   then 0 else int (nat (checksumOffset r) + length got))"
      by (elim exE conjE)
    have "length got \<le> nat (checksumInterval r) - nat (checksumOffset r)"
      by (simp add: got_def m_def)
    with r'(4) I inv have "0 \<le> checksumOffset r' \<and> checksumOffset r' < checksumInterval r"
      by (cases "nat (checksumOffset r) + length got = nat (checksumInterval r)") simp_all
    with r'(1,2,3) I Underlying show ?thesis by simp
  qed
qed


section \<open>Claims about Seek and the in-block offset\<close>

text \<open>
  C8, as amended. With an interval from 1 to below \<open>2 ^ 57\<close>, a reader whose in-block
  offset lies in \<open>[0, interval)\<close> keeps it there: after every \<^verbatim>\<open>Read\<close>, whatever it
  returns, and after every \<^verbatim>\<open>Seek\<close>, whatever the whence and whatever it returns, as
  long as the offset argument, the position of the source and the size of the source
  are below \<open>2 ^ 57\<close> in magnitude. Neither call panics there.
\<close>

theorem offset_stays_in_block:
  assumes "1 \<le> checksumInterval r" and "checksumInterval r < 2 ^ 57"
    and "0 \<le> checksumOffset r" and "checksumOffset r < checksumInterval r"
  shows "(\<exists>bs n e r'. Read r k = Done (bs, n, e, r') \<and>
            0 \<le> checksumOffset r' \<and> checksumOffset r' < checksumInterval r') \<and>
         (\<bar>offset\<bar> < 2 ^ 57 \<and> position (under r) < 2 ^ 57 \<and> length (contents (under r)) < 2 ^ 57
          \<longrightarrow> (\<exists>n e r'. Seek r offset whence = Done (n, e, r') \<and>
                 0 \<le> checksumOffset r' \<and> checksumOffset r' < checksumInterval r'))"
proof (intro conjI impI)
  from Read_offset [OF assms(1,3,4), of k]
  show "\<exists>bs n e r'. Read r k = Done (bs, n, e, r') \<and>
            0 \<le> checksumOffset r' \<and> checksumOffset r' < checksumInterval r'"
    by (elim exE conjE) (intro exI conjI, assumption, simp_all)
next
  assume b: "\<bar>offset\<bar> < 2 ^ 57 \<and> position (under r) < 2 ^ 57 \<and> length (contents (under r)) < 2 ^ 57"
  have I: "checksumInterval r < 144115188075855872" using assms(2) by simp
  have x: "\<bar>offset\<bar> < 144115188075855872" using b by simp
  have src: "position (under r) < 144115188075855872"
    "length (contents (under r)) < 144115188075855872" using b by simp_all
  from Seek_offset [OF assms(1) I assms(3,4) x src, of whence]
  show "\<exists>n e r'. Seek r offset whence = Done (n, e, r') \<and>
                 0 \<le> checksumOffset r' \<and> checksumOffset r' < checksumInterval r'"
    by (elim exE conjE) (intro exI conjI, assumption, simp_all)
qed

theorem offset_stays_in_block_witness:
  "(\<exists>bs n e r'. Read (newChecksummedReaderImpl (memory_source [1, 2, 0, 0, 0, 3]) 4 sum32) 3
        = Done (bs, n, e, r') \<and> 0 \<le> checksumOffset r' \<and> checksumOffset r' < checksumInterval r') \<and>
   (\<exists>n e r'. Seek (newChecksummedReaderImpl (memory_source [1, 2, 0, 0, 0, 3]) 4 sum32) (- 5) 2
        = Done (n, e, r') \<and> 0 \<le> checksumOffset r' \<and> checksumOffset r' < checksumInterval r')"
  using offset_stays_in_block [of "newChecksummedReaderImpl (memory_source [1, 2, 0, 0, 0, 3]) 4 sum32"
      3 "- 5" 2]
  by (simp add: newChecksummedReaderImpl_def memory_source_def)


text \<open>
  C8 as stated covers every \<^verbatim>\<open>Seek\<close>. With interval 1, \<^verbatim>\<open>Seek(1<<62, 0)\<close> computes
  \<^verbatim>\<open>offset/1*4\<close>, which wraps to 0 in \<^verbatim>\<open>int64\<close>; the source accepts the target
  \<open>2 ^ 62\<close>, and the in-block offset becomes \<open>2 ^ 62 mod 5 = 4\<close>, which is not below the
  interval.
\<close>

theorem Seek_overflow_counterexample:
  "Seek (newChecksummedReaderImpl (memory_source []) 1 sum32) 4611686018427387904 0 =
     Done (4611686018427387904, None,
           \<lparr>delegate = Underlying,
            under = \<lparr>contents = [], position = 4611686018427387904, srcCloser = True\<rparr>,
            checksumInterval = 1, checksumOffset = 4, newHash = sum32, hash = []\<rparr>)"
proof -
  have p: "physicalOf 1 4611686018427387904 = 4611686018427387904"
    by (simp add: physicalOf_def int64_def signed_divide_int_def
        signed_take_bit_eq_take_bit_shift take_bit_eq_mod)
  have l: "logicalOf 1 4611686018427387904 = 4611686018427387904"
    by (simp add: logicalOf_def int64_def signed_divide_int_def
        signed_take_bit_eq_take_bit_shift take_bit_eq_mod)
  have b: "blockOffset 1 4611686018427387904 = 4"
    by (simp add: blockOffset_def int64_id signed_modulo_int_def)
  have i: "int64 5 = 5" by (simp add: int64_id)
  show ?thesis
    by (simp add: Seek_def Seek_to_def newChecksummedReaderImpl_def memory_source_def p l b i
        delegate_Seek_def source_Seek_def Let_def)
qed


text \<open>
  C2 says that mapping a logical offset to its physical offset and back, as \<^verbatim>\<open>Seek\<close>
  does it, returns the logical offset. \<^verbatim>\<open>Seek\<close> maps back with
  \<^verbatim>\<open>o - (o / interval * 4)\<close>, dividing by the interval where the block stride
  \<open>interval + 4\<close> is meant (the stride it uses one line earlier for the in-block
  offset). With interval 16 the logical offset 64 lies at the physical offset 80, which
  maps back to 60: \<^verbatim>\<open>Seek(64, 0)\<close> returns 60, and a following \<^verbatim>\<open>Seek(0, 1)\<close> moves
  the source from 80 to 72 and returns 56.
\<close>

theorem Seek_reports_wrong_offset:
  "logicalOf 16 (physicalOf 16 64) = 60 \<and>
   Seek (newChecksummedReaderImpl (memory_source []) 16 sum32) 64 0 =
     Done (60, None,
           \<lparr>delegate = Underlying, under = \<lparr>contents = [], position = 80, srcCloser = True\<rparr>,
            checksumInterval = 16, checksumOffset = 0, newHash = sum32, hash = []\<rparr>) \<and>
   Seek \<lparr>delegate = Underlying, under = \<lparr>contents = [], position = 80, srcCloser = True\<rparr>,
         checksumInterval = 16, checksumOffset = 0, newHash = sum32, hash = []\<rparr> 0 1 =
     Done (56, None,
           \<lparr>delegate = Underlying, under = \<lparr>contents = [], position = 72, srcCloser = True\<rparr>,
            checksumInterval = 16, checksumOffset = 12, newHash = sum32, hash = []\<rparr>)"
proof -
  have i: "int64 20 = 20" "int64 60 = 60" by (simp_all add: int64_id)
  have p: "physicalOf 16 64 = 80" "physicalOf 16 60 = 72"
    by (simp_all add: physicalOf_def int64_id signed_divide_int_def)
  have l: "logicalOf 16 80 = 60" "logicalOf 16 72 = 56"
    by (simp_all add: logicalOf_def int64_id signed_divide_int_def)
  have b: "blockOffset 16 80 = 0" "blockOffset 16 72 = 12"
    by (simp_all add: blockOffset_def int64_id signed_modulo_int_def)
  show ?thesis
    by (simp add: Seek_def Seek_to_def newChecksummedReaderImpl_def memory_source_def p l b i
        delegate_Seek_def source_Seek_def Let_def)
qed



section \<open>Claims about the closed state\<close>

lemma Read_closed:
  assumes "delegate r = ERR_DELEGATE" and "checksumOffset r \<le> checksumInterval r"
  shows "Read r k = Done ([], 0, Some ErrClosed, r)"
  using assms by (simp add: Read_def delegate_Read_def Let_def)

lemma Seek_closed:
  assumes c: "delegate r = ERR_DELEGATE" and I: "1 \<le> checksumInterval r"
    "checksumInterval r < 1152921504606846976"
    and w: "whence = 0 \<or> whence = 1 \<or> whence = 2"
  shows "Seek r x whence = Done (0, Some ErrClosed, r\<lparr>checksumOffset := 0\<rparr>)"
proof (cases "whence = 0")
  case True
  with Seek_to_closed [OF c I] show ?thesis by (simp add: Seek_def)
next
  case False
  with w c I int64_interval [OF I] show ?thesis
    by (auto simp: Seek_def delegate_Seek_def blockOffset_0 logicalOf_0)
qed

lemma Verify_closed:
  "delegate r = ERR_DELEGATE \<Longrightarrow> Verify r = Done (False, Some ErrClosed, r)"
  by (simp add: Verify_def delegate_Seek_def)

lemma Close_r_closed:
  "delegate r = ERR_DELEGATE \<Longrightarrow> Close_r r = (Some ErrAlreadyClosed, r)"
  by (simp add: Close_r_def)

lemma Write_closed:
  assumes "delegate w = ERR_DELEGATE" and "checksumOffset w \<le> checksumInterval w"
    and "v \<noteq> []"
  shows "Write w v = Some (Done (0, Some ErrClosed, w))"
  using assms unfolding Write_def
  by (subst Write_loop.simps) (simp add: delegate_Write_def Let_def)

lemma Write_closed_empty:
  assumes "checksumOffset w < checksumInterval w"
  shows "Write w [] = Some (Done (0, None, w))"
  using assms unfolding Write_def
  by (subst Write_loop.simps) simp

lemma Close_w_closed:
  "delegate w = ERR_DELEGATE \<Longrightarrow>
   Close_w w = (Some (if checksumOffset w > 0 then ErrClosed else ErrAlreadyClosed), w)"
  by (simp add: Close_w_def delegate_Write_def delegate_Close_w_def)

lemma Close_closes:
  "delegate (snd (Close_r r)) = ERR_DELEGATE" "delegate (snd (Close_w w)) = ERR_DELEGATE"
  by (simp_all add: Close_r_def Close_w_def split: prod.splits)

lemma Write_loop_error_poisons:
  assumes "Write_loop w0 v0 n0 = Some y0"
  shows "\<forall>n e w'. y0 = Done (n, Some e, w') \<longrightarrow> delegate w' = ERR_DELEGATE"
proof (rule Write_loop.raw_induct
    [where P = "\<lambda>w v n y. \<forall>n e w'. y = Done (n, Some e, w') \<longrightarrow> delegate w' = ERR_DELEGATE",
      OF _ assms], goal_cases)
  case (1 rec w v n y)
  from 1(2) show ?case
    by (auto simp: Let_def split: if_splits prod.splits dest: 1(1))
qed

lemma Write_error_poisons:
  "Write w v = Some (Done (n, Some e, w')) \<Longrightarrow> delegate w' = ERR_DELEGATE"
  using Write_loop_error_poisons [of w v 0] by (simp add: Write_def)

text \<open>
  C7, as amended. \<^verbatim>\<open>Close\<close> on a reader or a writer leaves \<^verbatim>\<open>_ERR_DELEGATE\<close> as the
  delegate, and so does every \<^verbatim>\<open>Write\<close> that returns an error. On a reader in that
  state (interval from 1 to below \<open>2 ^ 57\<close>, in-block offset not beyond the interval)
  \<^verbatim>\<open>Read\<close> and \<^verbatim>\<open>Verify\<close> fail with the closed error, \<^verbatim>\<open>Seek\<close> with whence 0, 1 or
  2 fails with the closed error, and \<^verbatim>\<open>Close\<close> returns the already-closed error. On
  a writer in that state \<^verbatim>\<open>Write\<close> of a slice that is not empty fails with the closed
  error, and \<^verbatim>\<open>Close\<close> returns the closed error (a digest was pending) or the
  already-closed error. Each of these calls leaves \<^verbatim>\<open>_ERR_DELEGATE\<close> in place.
\<close>

theorem closed_is_final:
  "(delegate r = ERR_DELEGATE \<and> 1 \<le> checksumInterval r \<and> checksumInterval r < 2 ^ 57
      \<and> checksumOffset r \<le> checksumInterval r \<longrightarrow>
      Read r k = Done ([], 0, Some ErrClosed, r) \<and>
      (whence = 0 \<or> whence = 1 \<or> whence = 2 \<longrightarrow>
         Seek r x whence = Done (0, Some ErrClosed, r\<lparr>checksumOffset := 0\<rparr>)) \<and>
      Verify r = Done (False, Some ErrClosed, r) \<and>
      Close_r r = (Some ErrAlreadyClosed, r)) \<and>
   (delegate w = ERR_DELEGATE \<and> checksumOffset w \<le> checksumInterval w \<longrightarrow>
      (v \<noteq> [] \<longrightarrow> Write w v = Some (Done (0, Some ErrClosed, w))) \<and>
      Close_w w = (Some (if checksumOffset w > 0 then ErrClosed else ErrAlreadyClosed), w)) \<and>
   delegate (snd (Close_r r0)) = ERR_DELEGATE \<and>
   delegate (snd (Close_w w0)) = ERR_DELEGATE \<and>
   (Write w1 v1 = Some (Done (n, Some e, w2)) \<longrightarrow> delegate w2 = ERR_DELEGATE)"
proof (intro conjI impI)
  assume a: "delegate r = ERR_DELEGATE \<and> 1 \<le> checksumInterval r \<and> checksumInterval r < 2 ^ 57
      \<and> checksumOffset r \<le> checksumInterval r"
  then have I: "1 \<le> checksumInterval r" "checksumInterval r < 1152921504606846976" by simp_all
  from a show "Read r k = Done ([], 0, Some ErrClosed, r)" by (simp add: Read_closed)
  from a show "Verify r = Done (False, Some ErrClosed, r)" by (simp add: Verify_closed)
  from a show "Close_r r = (Some ErrAlreadyClosed, r)" by (simp add: Close_r_closed)
  assume "whence = 0 \<or> whence = 1 \<or> whence = 2"
  with a I show "Seek r x whence = Done (0, Some ErrClosed, r\<lparr>checksumOffset := 0\<rparr>)"
    by (intro Seek_closed) simp_all
next
  assume a: "delegate w = ERR_DELEGATE \<and> checksumOffset w \<le> checksumInterval w"
  then show "Close_w w = (Some (if checksumOffset w > 0 then ErrClosed else ErrAlreadyClosed), w)"
    by (simp add: Close_w_closed)
  assume "v \<noteq> []"
  with a show "Write w v = Some (Done (0, Some ErrClosed, w))" by (simp add: Write_closed)
next
  show "delegate (snd (Close_r r0)) = ERR_DELEGATE" by (rule Close_closes)
  show "delegate (snd (Close_w w0)) = ERR_DELEGATE" by (rule Close_closes)
next
  assume "Write w1 v1 = Some (Done (n, Some e, w2))"
  then show "delegate w2 = ERR_DELEGATE" by (rule Write_error_poisons)
qed


theorem closed_is_final_witness:
  "Read (snd (Close_r (newChecksummedReaderImpl (memory_source [1, 2]) 4 sum32))) 3 =
     Done ([], 0, Some ErrClosed, snd (Close_r (newChecksummedReaderImpl (memory_source [1, 2]) 4 sum32))) \<and>
   Seek (snd (Close_r (newChecksummedReaderImpl (memory_source [1, 2]) 4 sum32))) 5 1 =
     Done (0, Some ErrClosed,
           (snd (Close_r (newChecksummedReaderImpl (memory_source [1, 2]) 4 sum32)))\<lparr>checksumOffset := 0\<rparr>) \<and>
   Verify (snd (Close_r (newChecksummedReaderImpl (memory_source [1, 2]) 4 sum32))) =
     Done (False, Some ErrClosed, snd (Close_r (newChecksummedReaderImpl (memory_source [1, 2]) 4 sum32))) \<and>
   fst (Close_r (snd (Close_r (newChecksummedReaderImpl (memory_source [1, 2]) 4 sum32)))) =
     Some ErrAlreadyClosed \<and>
   Write (snd (Close_w (newChecksummedWriterImpl memory_sink 4 sum32))) [7] =
     Some (Done (0, Some ErrClosed, snd (Close_w (newChecksummedWriterImpl memory_sink 4 sum32)))) \<and>
   fst (Close_w (snd (Close_w (newChecksummedWriterImpl memory_sink 4 sum32)))) =
     Some ErrAlreadyClosed \<and>
   delegate \<lparr>delegate = ERR_DELEGATE, under = \<lparr>written = [1, 2], room = Some 0, closer = True\<rparr>,
             checksumInterval = 4, checksumOffset = 0, newHash = sum32, hash = []\<rparr> = ERR_DELEGATE"
proof -
  let ?r = "snd (Close_r (newChecksummedReaderImpl (memory_source [1, 2]) 4 sum32))"
  let ?w = "snd (Close_w (newChecksummedWriterImpl memory_sink 4 sum32))"
  let ?w1 = "newChecksummedWriterImpl \<lparr>written = [], room = Some 2, closer = True\<rparr> 4 sum32"
  let ?w2 = "\<lparr>delegate = ERR_DELEGATE, under = \<lparr>written = [1, 2], room = Some 0, closer = True\<rparr>,
             checksumInterval = 4, checksumOffset = 0, newHash = sum32, hash = []\<rparr>"
  have full: "Write ?w1 [1, 2, 3] = Some (Done (2, Some ErrSinkFull, ?w2))"
    unfolding Write_def
    by (subst Write_loop.simps)
       (simp add: newChecksummedWriterImpl_def delegate_Write_def sink_Write_def)
  have r: "delegate ?r = ERR_DELEGATE \<and> 1 \<le> checksumInterval ?r \<and> checksumInterval ?r < 2 ^ 57
      \<and> checksumOffset ?r \<le> checksumInterval ?r"
    by (simp add: Close_r_def newChecksummedReaderImpl_def)
  have w: "delegate ?w = ERR_DELEGATE \<and> checksumOffset ?w \<le> checksumInterval ?w"
    "checksumOffset ?w = 0"
    by (simp_all add: Close_w_def newChecksummedWriterImpl_def)
  from closed_is_final [where r = ?r and k = 3 and whence = 1 and x = 5 and w = ?w and v = "[7]"
      and ?w1.0 = ?w1 and ?v1.0 = "[1, 2, 3]" and n = 2 and e = ErrSinkFull and ?w2.0 = ?w2]
    r w full
  show ?thesis by simp
qed


text \<open>
  C7 as stated covers every operation after \<^verbatim>\<open>Close\<close>. A \<^verbatim>\<open>Write\<close> of the empty
  slice on a closed writer skips the loop and the final \<^verbatim>\<open>if len(v) > 0\<close>, never
  calls the delegate, and returns \<open>(0, nil)\<close>.
\<close>

theorem Write_empty_after_Close_counterexample:
  "Write (snd (Close_w (newChecksummedWriterImpl memory_sink 4 sum32))) [] =
     Some (Done (0, None, snd (Close_w (newChecksummedWriterImpl memory_sink 4 sum32))))"
  by (rule Write_closed_empty) (simp add: Close_w_def newChecksummedWriterImpl_def)



section \<open>Claims about verification\<close>

lemma Seek_reaches_reader_at:
  assumes "1 \<le> I" and "I < 2 ^ 60" and "L < 2 ^ 60"
  shows "\<exists>n. Seek (newChecksummedReaderImpl (memory_source bs) (int I) nh) (int L) 0
      = Done (n, None, reader_at I nh bs L)"
proof -
  let ?r = "newChecksummedReaderImpl (memory_source bs) (int I) nh"
  have I: "1 \<le> checksumInterval ?r" "checksumInterval ?r < 1152921504606846976"
    using assms(1,2) by (simp_all add: newChecksummedReaderImpl_def)
  have L: "0 \<le> int L" "int L < 1152921504606846976" using assms(3) by simp_all
  have live: "delegate ?r = Underlying" by (simp add: newChecksummedReaderImpl_def)
  have n: "nat (int L + 4 * (int L div int I)) = L + 4 * (L div I)"
    by (simp add: nat_add_distrib nat_mult_distrib zdiv_int [symmetric])
  have m: "int L mod int I = int (L mod I)" by (simp add: zmod_int)
  from Seek_to_live [OF live I L]
  show ?thesis
    by (simp add: Seek_def newChecksummedReaderImpl_def memory_source_def reader_at_def
        at_pos_def n m)
qed

lemma drop_layout_blocks:
  "0 < I \<Longrightarrow> k * I \<le> length c \<Longrightarrow>
   drop ((I + 4) * k) (layout nh I c) = layout nh I (drop (k * I) c)"
proof (induction k arbitrary: c)
  case 0
  then show ?case by simp
next
  case (Suc k)
  then have full: "I \<le> length c" by simp
  have "drop ((I + 4) * Suc k) (layout nh I c)
      = drop ((I + 4) * k) (drop (I + 4) (layout nh I c))"
    by (simp add: add.commute)
  also have "drop (I + 4) (layout nh I c) = layout nh I (drop I c)"
    using full by (simp add: layout_full [OF Suc.prems(1) full])
  also have "drop ((I + 4) * k) (layout nh I (drop I c)) = layout nh I (drop (k * I) (drop I c))"
    using Suc.prems by (intro Suc.IH) simp_all
  finally show ?case by (simp add: add.commute)
qed

lemma layout_block_split:
  assumes I: "0 < I" and L: "L < length c"
  shows "\<exists>after. drop (block_start I L) (layout nh I c)
        = block_of I c L @ PutUint32 (nh (block_of I c L)) @ after
      \<and> (length (block_of I c L) = I \<or> (length (block_of I c L) < I \<and> after = []))"
proof -
  define x where "x = drop (L div I * I) c"
  have le: "L div I * I \<le> L" by simp
  with L have "L div I * I < length c" by linarith
  then have xne: "x \<noteq> []" by (simp add: x_def)
  have d: "drop (block_start I L) (layout nh I c) = layout nh I x"
    unfolding block_start_def x_def using le L by (intro drop_layout_blocks [OF I]) linarith
  show ?thesis
  proof (cases "I \<le> length x")
    case True
    have "layout nh I x = take I x @ PutUint32 (nh (take I x)) @ layout nh I (drop I x)"
      by (rule layout_full [OF I True])
    with d True show ?thesis by (simp add: block_of_def x_def [symmetric])
  next
    case False
    then have s: "length x < I" by simp
    have "layout nh I x = x @ PutUint32 (nh x)" by (rule layout_short [OF xne s])
    with d s show ?thesis by (simp add: block_of_def x_def [symmetric])
  qed
qed

lemma flipped_byte: "j < 8 \<Longrightarrow> (x :: byte) XOR push_bit j 1 \<noteq> x"
proof
  assume j: "j < 8" and e: "x XOR push_bit j 1 = x"
  have "push_bit j 1 = x XOR (x XOR push_bit j (1 :: byte))"
    by (simp flip: xor.assoc)
  also have "\<dots> = 0" by (simp only: e xor_self_eq)
  finally have "push_bit j 1 = (0 :: byte)" .
  with j show False by (simp add: push_bit_eq_mult)
qed

lemma corrupt_differs:
  assumes "j < 8" and "i < length bs"
  shows "corrupt bs i j \<noteq> bs"
proof
  assume "corrupt bs i j = bs"
  then have "bs ! i = bs ! i XOR push_bit j 1"
    unfolding corrupt_def list_update_same_conv [OF assms(2)] .
  with flipped_byte [OF assms(1), of "bs ! i"] show False by simp
qed

lemma length_corrupt [simp]: "length (corrupt bs i j) = length bs"
  by (simp add: corrupt_def)

lemma drop_corrupt:
  "b \<le> i \<Longrightarrow> i < length bs \<Longrightarrow> drop b (corrupt bs i j) = corrupt (drop b bs) (i - b) j"
  by (simp add: corrupt_def drop_update_swap)

lemma corrupt_append:
  "corrupt (xs @ ys) i j =
     (if i < length xs then corrupt xs i j @ ys else xs @ corrupt ys (i - length xs) j)"
  by (simp add: corrupt_def list_update_append nth_append)

lemma Verify_reader_at:
  assumes I: "0 < I"
    and blk: "drop (block_start I L) bs = blk @ dig @ after" "length dig = 4"
    and shape: "length blk = I \<or> (length blk < I \<and> after = [])"
  shows "Verify (reader_at I nh bs L) = Done (dig = PutUint32 (nh blk), None, reader_at I nh bs L)"
proof -
  have p: "L + 4 * (L div I) = block_start I L + L mod I"
    by (simp add: block_start_def algebra_simps)
  have "Verify (reader_at I nh bs L)
      = Done (dig = PutUint32 (newHash (reader_at I nh bs L) blk), None, reader_at I nh bs L)"
    by (rule Verify_block [where off = "L mod I" and b = "block_start I L" and I = I
          and after = after])
       (use blk shape in \<open>simp_all add: reader_at_def p\<close>)
  then show ?thesis by (simp add: reader_at_def)
qed


lemma Verify_layout:
  assumes I: "0 < I" and L: "L < length c"
  shows "Verify (reader_at I nh (layout nh I c) L)
      = Done (True, None, reader_at I nh (layout nh I c) L)"
proof -
  from layout_block_split [OF I L, of nh]
  obtain after where sp: "drop (block_start I L) (layout nh I c)
        = block_of I c L @ PutUint32 (nh (block_of I c L)) @ after"
    "length (block_of I c L) = I \<or> (length (block_of I c L) < I \<and> after = [])"
    by blast
  from Verify_reader_at [OF I sp(1) _ sp(2), of nh] show ?thesis by simp
qed

lemma Verify_corrupt:
  assumes I: "0 < I" and L: "L < length c" and j: "j < 8"
    and lo: "block_start I L \<le> i"
    and hi: "i < block_start I L + length (block_of I c L) + 4"
  shows "Verify (reader_at I nh (corrupt (layout nh I c) i j) L) =
       Done (if i < block_start I L + length (block_of I c L)
             then PutUint32 (nh (block_of I c L))
                  = PutUint32 (nh (corrupt (block_of I c L) (i - block_start I L) j))
             else False,
             None, reader_at I nh (corrupt (layout nh I c) i j) L)"
proof -
  define b where "b = block_start I L"
  define blk where "blk = block_of I c L"
  define D where "D = PutUint32 (nh blk)"
  define bs where "bs = layout nh I c"
  from layout_block_split [OF I L, of nh]
  obtain after where sp: "drop b bs = blk @ D @ after"
    "length blk = I \<or> (length blk < I \<and> after = [])"
    unfolding b_def blk_def D_def bs_def by blast
  have lD: "length D = 4" by (simp add: D_def)
  have "length (drop b bs) = length blk + 4 + length after"
    by (simp add: sp(1) lD)
  then have len: "b + length blk + 4 \<le> length bs" by simp
  with hi have i: "i < length bs" by (simp add: b_def blk_def)
  have lo': "b \<le> i" using lo by (simp add: b_def)
  have hi': "i - b < length blk + 4" using hi lo' by (simp add: b_def blk_def)
  have dc: "drop b (corrupt bs i j) = corrupt (blk @ D @ after) (i - b) j"
    using drop_corrupt [OF lo' i] by (simp add: sp(1))
  show ?thesis
  proof (cases "i < b + length blk")
    case True
    then have t: "i - b < length blk" using lo' by simp
    have "drop (block_start I L) (corrupt bs i j) = corrupt blk (i - b) j @ D @ after"
      using t by (simp add: dc corrupt_append b_def [symmetric])
    from Verify_reader_at [OF I this lD, of nh] sp(2)
    have "Verify (reader_at I nh (corrupt bs i j) L)
        = Done (D = PutUint32 (nh (corrupt blk (i - b) j)), None, reader_at I nh (corrupt bs i j) L)"
      by simp
    with True show ?thesis
      by (simp add: b_def [symmetric] blk_def [symmetric] bs_def [symmetric] D_def)
  next
    case False
    then have f: "\<not> i - b < length blk" "i - b - length blk < length D"
      using lo' hi' lD by simp_all
    have "drop (block_start I L) (corrupt bs i j)
        = blk @ corrupt D (i - b - length blk) j @ after"
      using f by (simp add: dc corrupt_append b_def [symmetric])
    from Verify_reader_at [OF I this _ sp(2), of nh] lD
    have "Verify (reader_at I nh (corrupt bs i j) L)
        = Done (corrupt D (i - b - length blk) j = PutUint32 (nh blk), None,
                reader_at I nh (corrupt bs i j) L)"
      by simp
    moreover have "corrupt D (i - b - length blk) j \<noteq> D"
      using j f(2) by (rule corrupt_differs)
    ultimately show ?thesis using False
      by (simp add: b_def [symmetric] blk_def [symmetric] bs_def [symmetric] D_def [symmetric])
  qed
qed

text \<open>
  C5, as amended. For a stream written with content \<open>c\<close> and interval \<open>I \<ge> 1\<close> and a
  cursor at any logical offset \<open>L\<close> inside the content, \<^verbatim>\<open>Verify\<close> on the unmodified
  stream returns \<open>(true, nil)\<close>. With one bit flipped in the stored bytes of the block
  under the cursor, \<^verbatim>\<open>Verify\<close> returns without error, and it returns false when the
  bit lies in the stored digest; when the bit lies in the stored content it returns
  false exactly when the digest of the altered content differs from the stored digest.
  The reader itself is left as it was in each case.
\<close>

theorem Verify_detects:
  assumes "1 \<le> I" and "L < length c" and "j < 8"
    and "block_start I L \<le> i"
    and "i < block_start I L + length (block_of I c L) + 4"
  shows "Verify (reader_at I nh (layout nh I c) L)
      = Done (True, None, reader_at I nh (layout nh I c) L) \<and>
    Verify (reader_at I nh (corrupt (layout nh I c) i j) L) =
       Done (if i < block_start I L + length (block_of I c L)
             then PutUint32 (nh (block_of I c L))
                  = PutUint32 (nh (corrupt (block_of I c L) (i - block_start I L) j))
             else False,
             None, reader_at I nh (corrupt (layout nh I c) i j) L)"
proof -
  from assms(1) have I: "0 < I" by simp
  from Verify_layout [OF I assms(2)] Verify_corrupt [OF I assms(2-5)] show ?thesis by simp
qed

theorem Verify_detects_witness:
  "Verify (reader_at 4 sum32 (layout sum32 4 [1, 2]) 1)
      = Done (True, None, reader_at 4 sum32 (layout sum32 4 [1, 2]) 1) \<and>
   Verify (reader_at 4 sum32 (corrupt (layout sum32 4 [1, 2]) 3 0) 1)
      = Done (False, None, reader_at 4 sum32 (corrupt (layout sum32 4 [1, 2]) 3 0) 1) \<and>
   Verify (reader_at 4 sum32 (corrupt (layout sum32 4 [1, 2]) 0 0) 1)
      = Done (False, None, reader_at 4 sum32 (corrupt (layout sum32 4 [1, 2]) 0 0) 1)"
  using Verify_detects [of 4 1 "[1, 2]" 0 3 sum32] Verify_detects [of 4 1 "[1, 2]" 0 0 sum32]
  by (simp add: block_start_def block_of_def corrupt_def sum32_def PutUint32_def)


text \<open>
  C5 as stated promises false for every flipped bit, whatever the hash construction.
  With the hash that returns the number of bytes, interval 4 and content \<open>[1, 2]\<close>,
  flipping the lowest bit of the first content byte leaves the digest of the content
  unchanged, and \<^verbatim>\<open>Verify\<close> returns true.
\<close>

theorem Verify_misses_collision_counterexample:
  "corrupt (layout len32 4 [1, 2]) 0 0 = [0, 2, 0, 0, 0, 2] \<and>
   Verify (reader_at 4 len32 [0, 2, 0, 0, 0, 2] 0)
      = Done (True, None, reader_at 4 len32 [0, 2, 0, 0, 0, 2] 0)"
proof -
  have l: "layout len32 4 [1, 2] = [1, 2, 0, 0, 0, 2]"
    by (simp add: layout_short len32_def PutUint32_def)
  have c: "corrupt (layout len32 4 [1, 2]) 0 0 = [0, 2, 0, 0, 0, 2]"
    by (simp add: l corrupt_def)
  from Verify_corrupt [of 4 0 "[1, 2]" 0 0 len32] show ?thesis
    unfolding c by (simp add: block_start_def block_of_def corrupt_def len32_def)
qed


end
